theory Spec2Isabelle
  imports Complex_Main "HOL-Library.AList"
begin

section \<open>Data model of the sub-step workflow editor\<close>

text \<open>
  The editor is the React component \<^verbatim>\<open>TaskDetailModal\<close>. Its types come from
  \<^verbatim>\<open>../types\<close>; the fields below are the ones the component reads and writes.
  A field the source guards with \<^verbatim>\<open>?.\<close>, \<^verbatim>\<open>|| []\<close> or \<^verbatim>\<open>!\<close> is optional and
  is an \<open>option\<close> here. Canvas coordinates are JavaScript numbers and are modelled as
  reals; the layout only ever produces whole numbers of pixels.
\<close>

datatype SubStepStatus = NOT_STARTED | IN_PROGRESS | COMPLETED

record Position =
  pos_x :: real
  pos_y :: real

record ActionItem =
  ai_id :: string
  ai_text :: string
  ai_completed :: bool

record SubStep =
  ss_id :: string
  ss_text :: string
  ss_notes :: "string option"
  ss_status :: SubStepStatus
  ss_position :: "Position option"
  ss_nextSubStepIds :: "string list option"
  ss_actionItems :: "ActionItem list option"
  ss_attachments :: "string list option"

record EditableExtendedTaskDetails =
  ed_subSteps :: "SubStep list option"
  ed_notes :: string
  ed_attachments :: "string list option"

record ProjectTask =
  task_id :: string
  task_title :: string
  task_description :: string
  extendedDetails :: "EditableExtendedTaskDetails option"

text \<open>
  The state of the component that the handlers below touch: three \<^verbatim>\<open>useState\<close> cells
  for the task and its two history stacks, the connection-drawing cell, the selection,
  and the two \<^verbatim>\<open>useRef\<close> cells of the drag gesture.
\<close>

record Editor =
  editableTask :: ProjectTask
  localHistory :: "ProjectTask list"
  localRedoHistory :: "ProjectTask list"
  connectingState :: "(string \<times> Position) option"
  selectedSubStepId :: "string option"
  draggedSubStepIdRef :: "string option"
  subStepDragOffsetRef :: Position

text \<open>
  Reading a property of \<^verbatim>\<open>undefined\<close> throws a \<^verbatim>\<open>TypeError\<close>. The model also
  returns it wherever the source asserts with \<^verbatim>\<open>!\<close> that a value is defined and goes
  on computing with it.
\<close>

datatype error = TypeError

section \<open>History: commit, undo, redo\<close>

text \<open>
  \<^verbatim>\<open>updateEditableTaskWithHistory(updater)\<close>: inside one \<^verbatim>\<open>setEditableTask\<close> update the
  current task is appended to \<^verbatim>\<open>localHistory\<close>, \<^verbatim>\<open>localRedoHistory\<close> is set to
  \<^verbatim>\<open>[]\<close>, and the updater's result becomes the task. An updater that throws leaves
  no new state.
\<close>

definition updateEditableTaskWithHistory ::
  "(ProjectTask \<Rightarrow> error + ProjectTask) \<Rightarrow> Editor \<Rightarrow> error + Editor" where
  "updateEditableTaskWithHistory updater s =
     (case updater (editableTask s) of
        Inl e \<Rightarrow> Inl e
      | Inr t \<Rightarrow> Inr (s\<lparr>localHistory := localHistory s @ [editableTask s],
                       localRedoHistory := [],
                       editableTask := t\<rparr>))"

text \<open>
  \<^verbatim>\<open>updateExtended(d => ...)\<close> goes through \<^verbatim>\<open>updateTask\<close> and merges the callback's
  partial result into \<^verbatim>\<open>prev.extendedDetails!\<close>. Every callback modelled here starts by
  reading \<^verbatim>\<open>d.subSteps\<close>, which throws when the details are undefined. The callback is
  given as the function from the details to the merged details.
\<close>

definition updateExtended ::
  "(EditableExtendedTaskDetails \<Rightarrow> EditableExtendedTaskDetails) \<Rightarrow> Editor \<Rightarrow> error + Editor" where
  "updateExtended updates =
     updateEditableTaskWithHistory (\<lambda>prev.
       case extendedDetails prev of
         None \<Rightarrow> Inl TypeError
       | Some d \<Rightarrow> Inr (prev\<lparr>extendedDetails := Some (updates d)\<rparr>))"

definition handleLocalUndo :: "Editor \<Rightarrow> Editor" where
  "handleLocalUndo s =
     (if length (localHistory s) = 0 then s
      else s\<lparr>localHistory := butlast (localHistory s),
             localRedoHistory := editableTask s # localRedoHistory s,
             editableTask := last (localHistory s)\<rparr>)"

definition handleLocalRedo :: "Editor \<Rightarrow> Editor" where
  "handleLocalRedo s =
     (if length (localRedoHistory s) = 0 then s
      else s\<lparr>localRedoHistory := tl (localRedoHistory s),
             localHistory := localHistory s @ [editableTask s],
             editableTask := hd (localRedoHistory s)\<rparr>)"

text \<open>A user session is a sequence of commits, undos and redos.\<close>

datatype command = Commit "ProjectTask \<Rightarrow> error + ProjectTask" | Undo | Redo

fun perform :: "command \<Rightarrow> Editor \<Rightarrow> error + Editor" where
  "perform (Commit updater) s = updateEditableTaskWithHistory updater s"
| "perform Undo s = Inr (handleLocalUndo s)"
| "perform Redo s = Inr (handleLocalRedo s)"

fun session :: "command list \<Rightarrow> Editor \<Rightarrow> error + Editor" where
  "session [] s = Inr s"
| "session (c # cs) s = (case perform c s of Inl e \<Rightarrow> Inl e | Inr s' \<Rightarrow> session cs s')"

section \<open>Graph store: sub-steps and their outgoing ids\<close>

text \<open>\<^verbatim>\<open>d.subSteps || []\<close> and \<^verbatim>\<open>ss.nextSubStepIds || []\<close>.\<close>

definition subStepsOrEmpty :: "EditableExtendedTaskDetails \<Rightarrow> SubStep list" where
  "subStepsOrEmpty d = (case ed_subSteps d of None \<Rightarrow> [] | Some l \<Rightarrow> l)"

definition nextIdsOrEmpty :: "SubStep \<Rightarrow> string list" where
  "nextIdsOrEmpty ss = (case ss_nextSubStepIds ss of None \<Rightarrow> [] | Some l \<Rightarrow> l)"

text \<open>\<^verbatim>\<open>editableTask.extendedDetails?.subSteps || []\<close>, the graph a handler or the view reads.\<close>

definition currentSubSteps :: "Editor \<Rightarrow> SubStep list" where
  "currentSubSteps s =
     (case extendedDetails (editableTask s) of None \<Rightarrow> [] | Some d \<Rightarrow> subStepsOrEmpty d)"

text \<open>The outgoing set of a node: the targets its \<^verbatim>\<open>nextSubStepIds\<close> lists.\<close>

definition outgoing :: "SubStep \<Rightarrow> string set" where
  "outgoing ss = set (nextIdsOrEmpty ss)"

text \<open>
  \<^verbatim>\<open>handleUpdateSubStep(subStepId, updates)\<close> maps over the sub-steps and merges the
  updates into every sub-step whose id matches; \<open>updates\<close> is the function from a
  sub-step to the merged sub-step.
\<close>

definition handleUpdateSubStep :: "string \<Rightarrow> (SubStep \<Rightarrow> SubStep) \<Rightarrow> Editor \<Rightarrow> error + Editor" where
  "handleUpdateSubStep subStepId updates =
     updateExtended (\<lambda>d. d\<lparr>ed_subSteps :=
       Some (map (\<lambda>ss. if ss_id ss = subStepId then updates ss else ss) (subStepsOrEmpty d))\<rparr>)"

text \<open>
  \<^verbatim>\<open>handleRemoveSubStep(idToRemove)\<close>: the selection is dropped if it was the removed
  node; then one \<^verbatim>\<open>updateExtended\<close> filters the node out and maps over the others,
  filtering the id out of each \<^verbatim>\<open>nextSubStepIds\<close> (\<^verbatim>\<open>?.\<close> keeps an undefined list
  undefined).
\<close>

definition handleRemoveSubStep :: "string \<Rightarrow> Editor \<Rightarrow> error + Editor" where
  "handleRemoveSubStep idToRemove s =
     updateExtended (\<lambda>d. d\<lparr>ed_subSteps :=
         Some (map (\<lambda>ss. ss\<lparr>ss_nextSubStepIds :=
                      map_option (filter (\<lambda>i. i \<noteq> idToRemove)) (ss_nextSubStepIds ss)\<rparr>)
                 (filter (\<lambda>ss. ss_id ss \<noteq> idToRemove) (subStepsOrEmpty d)))\<rparr>)
       (s\<lparr>selectedSubStepId :=
            (if selectedSubStepId s = Some idToRemove then None else selectedSubStepId s)\<rparr>)"

text \<open>
  \<^verbatim>\<open>Array.from(new Set(xs))\<close>: the elements of \<open>xs\<close> in the order of their first
  occurrence. \<open>setAddAll acc xs\<close> adds the elements of \<open>xs\<close> one by one to a set that
  holds \<open>acc\<close> in insertion order.
\<close>

fun setAddAll :: "'a list \<Rightarrow> 'a list \<Rightarrow> 'a list" where
  "setAddAll acc [] = acc"
| "setAddAll acc (x # xs) = setAddAll (if x \<in> set acc then acc else acc @ [x]) xs"

definition arrayFromSet :: "'a list \<Rightarrow> 'a list" where
  "arrayFromSet xs = setAddAll [] xs"

text \<open>
  \<^verbatim>\<open>handleStartConnection\<close> and \<^verbatim>\<open>handleEndConnection\<close>. The press on a connection
  handle stores the source id and the canvas-local pointer position; without a canvas
  element nothing happens. The release on a card ends the gesture: on the source card
  itself it only resets \<^verbatim>\<open>connectingState\<close>; on any other card it updates the source
  through \<^verbatim>\<open>handleUpdateSubStep\<close> and resets \<^verbatim>\<open>connectingState\<close>.
\<close>

record Canvas =
  canvas_left :: real
  canvas_top :: real
  canvas_scrollLeft :: real
  canvas_scrollTop :: real
  canvas_clientWidth :: real
  canvas_inner :: "(real \<times> real) option"

definition handleStartConnection :: "string \<Rightarrow> real \<Rightarrow> real \<Rightarrow> Canvas option \<Rightarrow> Editor \<Rightarrow> Editor" where
  "handleStartConnection fromId clientX clientY canvas s =
     (case canvas of
        None \<Rightarrow> s
      | Some c \<Rightarrow> s\<lparr>connectingState := Some (fromId,
                     \<lparr>pos_x = clientX - canvas_left c + canvas_scrollLeft c,
                      pos_y = clientY - canvas_top c + canvas_scrollTop c\<rparr>)\<rparr>)"

definition handleEndConnection :: "string \<Rightarrow> Editor \<Rightarrow> error + Editor" where
  "handleEndConnection targetId s =
     (case connectingState s of
        None \<Rightarrow> Inr s
      | Some (fromId, fromPos) \<Rightarrow>
          if fromId = targetId then Inr (s\<lparr>connectingState := None\<rparr>)
          else (case handleUpdateSubStep fromId
                       (\<lambda>ss. ss\<lparr>ss_nextSubStepIds :=
                                  Some (arrayFromSet (nextIdsOrEmpty ss @ [targetId]))\<rparr>) s of
                  Inl e \<Rightarrow> Inl e
                | Inr s' \<Rightarrow> Inr (s'\<lparr>connectingState := None\<rparr>)))"

text \<open>
  \<^verbatim>\<open>handleToggleActionItem(subStepId, itemId)\<close>: in the matching sub-step the matching
  item's \<^verbatim>\<open>completed\<close> flag is negated and the status is recomputed from the new items.
\<close>

definition statusFromItems :: "ActionItem list option \<Rightarrow> SubStepStatus" where
  "statusFromItems newActionItems =
     (case newActionItems of
        None \<Rightarrow> NOT_STARTED
      | Some items \<Rightarrow>
          if length items > 0 then
            (if list_all ai_completed items then COMPLETED
             else if list_ex ai_completed items then IN_PROGRESS
             else NOT_STARTED)
          else NOT_STARTED)"

definition toggleItem :: "string \<Rightarrow> ActionItem \<Rightarrow> ActionItem" where
  "toggleItem itemId item =
     (if ai_id item = itemId then item\<lparr>ai_completed := \<not> ai_completed item\<rparr> else item)"

definition handleToggleActionItem :: "string \<Rightarrow> string \<Rightarrow> Editor \<Rightarrow> error + Editor" where
  "handleToggleActionItem subStepId itemId =
     updateExtended (\<lambda>d. d\<lparr>ed_subSteps :=
       Some (map (\<lambda>ss. if ss_id ss \<noteq> subStepId then ss
                       else (let newActionItems = map_option (map (toggleItem itemId)) (ss_actionItems ss)
                             in ss\<lparr>ss_actionItems := newActionItems,
                                   ss_status := statusFromItems newActionItems\<rparr>))
                 (subStepsOrEmpty d))\<rparr>)"

section \<open>Dragging a node\<close>

text \<open>
  \<^verbatim>\<open>handleSubStepDragStart\<close> remembers the dragged id and the offset of the pointer
  inside the card (client coordinate minus the card's bounding rectangle corner).
  \<^verbatim>\<open>handleSubStepDrop\<close> reads the canvas, the dragged card's element and the inner
  canvas at the time it runs; \<open>cards\<close> is \<^verbatim>\<open>subStepCardRefs.get(id)?.current\<close> with
  the element's \<^verbatim>\<open>offsetWidth\<close> and \<^verbatim>\<open>offsetHeight\<close>, and \<open>canvas_inner\<close> the inner
  canvas's \<^verbatim>\<open>scrollWidth\<close> and \<^verbatim>\<open>scrollHeight\<close>. The guard
  \<^verbatim>\<open>!draggedSubStepIdRef.current\<close> also holds for the empty string.
\<close>

definition handleSubStepDragStart :: "real \<Rightarrow> real \<Rightarrow> real \<Rightarrow> real \<Rightarrow> string \<Rightarrow> Editor \<Rightarrow> Editor" where
  "handleSubStepDragStart clientX clientY cardLeft cardTop subStepId s =
     s\<lparr>draggedSubStepIdRef := Some subStepId,
       subStepDragOffsetRef := \<lparr>pos_x = clientX - cardLeft, pos_y = clientY - cardTop\<rparr>\<rparr>"

definition handleSubStepDrop ::
  "real \<Rightarrow> real \<Rightarrow> Canvas option \<Rightarrow> (string \<Rightarrow> (real \<times> real) option) \<Rightarrow> Editor \<Rightarrow> error + Editor" where
  "handleSubStepDrop clientX clientY canvas cards s =
     (case draggedSubStepIdRef s of
        None \<Rightarrow> Inr s
      | Some dragged \<Rightarrow>
         if dragged = [] then Inr s
         else
         (case canvas of
            None \<Rightarrow> Inr s
          | Some c \<Rightarrow>
             (case cards dragged of
                None \<Rightarrow> Inr s
              | Some (cardWidth, cardHeight) \<Rightarrow>
                  let newX = clientX - canvas_left c - pos_x (subStepDragOffsetRef s) + canvas_scrollLeft c;
                      newY = clientY - canvas_top c - pos_y (subStepDragOffsetRef s) + canvas_scrollTop c;
                      p = (case canvas_inner c of
                             None \<Rightarrow> \<lparr>pos_x = newX, pos_y = newY\<rparr>
                           | Some (scrollWidth, scrollHeight) \<Rightarrow>
                               \<lparr>pos_x = max 0 (min newX (scrollWidth - cardWidth)),
                                pos_y = max 0 (min newY (scrollHeight - cardHeight))\<rparr>)
                  in (case handleUpdateSubStep dragged (\<lambda>ss. ss\<lparr>ss_position := Some p\<rparr>) s of
                        Inl e \<Rightarrow> Inl e
                      | Inr s' \<Rightarrow> Inr (s'\<lparr>draggedSubStepIdRef := None\<rparr>)))))"

section \<open>Automatic layout\<close>

subsection \<open>Layering\<close>

text \<open>
  \<^verbatim>\<open>handleAutoLayoutSubSteps\<close> keeps two JavaScript \<^verbatim>\<open>Map\<close>s from node id to the list of
  successors (\<^verbatim>\<open>adj\<close>) and to the in-degree (\<^verbatim>\<open>inDegree\<close>). A \<^verbatim>\<open>Map\<close> keeps its keys in
  insertion order and \<^verbatim>\<open>set\<close> on a present key replaces the value in place: an
  association list with \<open>AList.update\<close>, read by \<open>map_of\<close>.

  The first \<^verbatim>\<open>forEach\<close> enters every sub-step id with \<^verbatim>\<open>[]\<close> and \<^verbatim>\<open>0\<close>.
\<close>


type_synonym adjacency = "(string \<times> string list) list"

type_synonym degrees = "(string \<times> int) list"

definition initMaps :: "SubStep list \<Rightarrow> adjacency \<times> degrees" where
  "initMaps subSteps =
     fold (\<lambda>ss (adj, deg). (AList.update (ss_id ss) [] adj, AList.update (ss_id ss) 0 deg))
       subSteps ([], [])"

text \<open>
  The second \<^verbatim>\<open>forEach\<close>: for every \<^verbatim>\<open>nextId\<close> of every sub-step, if \<^verbatim>\<open>adj.has(nextId)\<close>
  the id is pushed on \<^verbatim>\<open>adj.get(ss.id)!\<close> and \<^verbatim>\<open>inDegree.get(nextId)! + 1\<close> is stored.
  Both reads are asserted to be defined; an undefined one is \<open>TypeError\<close> here.
\<close>


fun addEdges :: "string \<Rightarrow> string list \<Rightarrow> adjacency \<times> degrees \<Rightarrow> error + adjacency \<times> degrees" where
  "addEdges src [] m = Inr m"
| "addEdges src (nextId # rest) (adj, deg) =
     (if map_of adj nextId \<noteq> None then
        (case map_of adj src of
           None \<Rightarrow> Inl TypeError
         | Some targets \<Rightarrow>
            (case map_of deg nextId of
               None \<Rightarrow> Inl TypeError
             | Some n \<Rightarrow> addEdges src rest (AList.update src (targets @ [nextId]) adj,
                                             AList.update nextId (n + 1) deg)))
      else addEdges src rest (adj, deg))"

fun buildEdges :: "SubStep list \<Rightarrow> adjacency \<times> degrees \<Rightarrow> error + adjacency \<times> degrees" where
  "buildEdges [] m = Inr m"
| "buildEdges (ss # rest) m =
     (case addEdges (ss_id ss) (nextIdsOrEmpty ss) m of
        Inl e \<Rightarrow> Inl e
      | Inr m' \<Rightarrow> buildEdges rest m')"

text \<open>
  The state of the \<^verbatim>\<open>while (queue.length > 0)\<close> loop. One round takes
  \<^verbatim>\<open>levelSize = queue.length\<close>, shifts that many ids from the front of the queue into
  \<^verbatim>\<open>currentLevel\<close>, and for every successor \<^verbatim>\<open>v\<close> of a shifted id stores
  \<^verbatim>\<open>inDegree.get(v)! - 1\<close> and pushes \<^verbatim>\<open>v\<close> on the queue when the new value is \<^verbatim>\<open>0\<close>.
  \<open>relax\<close> is the inner \<^verbatim>\<open>forEach\<close> over \<^verbatim>\<open>adj.get(u) || []\<close>, \<open>forLevel\<close> the
  \<^verbatim>\<open>for\<close> loop with its remaining number of rounds; \<^verbatim>\<open>queue.shift()!\<close> on an empty
  queue is \<open>TypeError\<close> here.
\<close>


record Peeling =
  queue :: "string list"
  levels :: "string list list"
  visitedCount :: nat
  inDegree :: degrees

fun relax :: "string list \<Rightarrow> degrees \<times> string list \<Rightarrow> error + degrees \<times> string list" where
  "relax [] dq = Inr dq"
| "relax (v # vs) (deg, q) =
     (case map_of deg v of
        None \<Rightarrow> Inl TypeError
      | Some n \<Rightarrow> relax vs (AList.update v (n - 1) deg, if n - 1 = 0 then q @ [v] else q))"

definition targetsOf :: "adjacency \<Rightarrow> string \<Rightarrow> string list" where
  "targetsOf adj u = (case map_of adj u of None \<Rightarrow> [] | Some vs \<Rightarrow> vs)"

fun forLevel :: "adjacency \<Rightarrow> nat \<Rightarrow> Peeling \<times> string list \<Rightarrow> error + Peeling \<times> string list" where
  "forLevel adj 0 (st, currentLevel) = Inr (st, currentLevel)"
| "forLevel adj (Suc n) (st, currentLevel) =
     (case queue st of
        [] \<Rightarrow> Inl TypeError
      | u # rest \<Rightarrow>
         (case relax (targetsOf adj u) (inDegree st, rest) of
            Inl e \<Rightarrow> Inl e
          | Inr (deg, q) \<Rightarrow>
              forLevel adj n (st\<lparr>queue := q, inDegree := deg, visitedCount := visitedCount st + 1\<rparr>,
                              currentLevel @ [u])))"

text \<open>
  The loop ends: every shift shortens the queue, and a push happens only when a
  positive in-degree entry becomes zero.
\<close>


definition positives :: "degrees \<Rightarrow> nat" where
  "positives deg = length (filter (\<lambda>kn. 0 < snd kn) deg)"

definition pending :: "Peeling \<Rightarrow> nat" where
  "pending st = 2 * positives (inDegree st) + length (queue st)"

lemma positives_update:
  "map_of deg k = Some n \<Longrightarrow>
     positives (AList.update k m deg) + (if 0 < n then 1 else 0)
       = positives deg + (if 0 < m then 1 else 0)"
  by (induction deg) (auto simp: positives_def)

lemma relax_pending:
  "relax vs (deg, q) = Inr (deg', q') \<Longrightarrow>
     2 * positives deg' + length q' \<le> 2 * positives deg + length q"
proof (induction vs arbitrary: deg q)
  case Nil
  then show ?case by simp
next
  case (Cons v vs)
  from Cons.prems obtain n where n: "map_of deg v = Some n"
    and r: "relax vs (AList.update v (n - 1) deg, if n - 1 = 0 then q @ [v] else q) = Inr (deg', q')"
    by (auto split: option.splits)
  from positives_update [OF n, of "n - 1"] Cons.IH [OF r]
  show ?case by (auto split: if_splits)
qed

lemma forLevel_pending:
  "forLevel adj n (st, cl) = Inr (st', cl') \<Longrightarrow> pending st' + n \<le> pending st"
proof (induction n arbitrary: st cl)
  case 0
  then show ?case by simp
next
  case (Suc n)
  from Suc.prems obtain u rest deg q where
    q: "queue st = u # rest"
    and r: "relax (targetsOf adj u) (inDegree st, rest) = Inr (deg, q)"
    and f: "forLevel adj n (st\<lparr>queue := q, inDegree := deg, visitedCount := visitedCount st + 1\<rparr>,
                              cl @ [u]) = Inr (st', cl')"
    by (auto split: list.splits sum.splits)
  from relax_pending [OF r] Suc.IH [OF f] q show ?case
    by (simp add: pending_def)
qed

function whileQueue :: "adjacency \<Rightarrow> Peeling \<Rightarrow> error + Peeling" where
  "whileQueue adj st =
     (if length (queue st) > 0 then
        (case forLevel adj (length (queue st)) (st, []) of
           Inl e \<Rightarrow> Inl e
         | Inr (st', currentLevel) \<Rightarrow> whileQueue adj (st'\<lparr>levels := levels st' @ [currentLevel]\<rparr>))
      else Inr st)"
  by pat_completeness auto
termination
proof (relation "measure (\<lambda>(adj, st). pending st)")
  show "wf (measure (\<lambda>(adj, st). pending st))" by simp
next
  fix adj :: adjacency and st :: Peeling and x st' currentLevel
  assume "0 < length (queue st)"
    and "forLevel adj (length (queue st)) (st, []) = Inr x"
    and "(st', currentLevel) = x"
  then have "pending st' + length (queue st) \<le> pending st"
    using forLevel_pending by metis
  with \<open>0 < length (queue st)\<close> have "pending st' < pending st" by linarith
  then show "((adj, st'\<lparr>levels := levels st' @ [currentLevel]\<rparr>), (adj, st)) \<in> measure (\<lambda>(adj, st). pending st)"
    by (simp add: pending_def)
qed

declare whileQueue.simps [simp del]

text \<open>
  The queue starts with the sub-steps whose in-degree is \<^verbatim>\<open>0\<close>, in the order of
  \<^verbatim>\<open>subSteps\<close>. After the loop, if \<^verbatim>\<open>visitedCount < subSteps.length\<close> the sub-steps
  that are in no level are collected in the order of \<^verbatim>\<open>subSteps\<close> and pushed as one
  more level when there are any.
\<close>


definition kahnPeel :: "SubStep list \<Rightarrow> error + Peeling" where
  "kahnPeel subSteps =
     (case buildEdges subSteps (initMaps subSteps) of
        Inl e \<Rightarrow> Inl e
      | Inr (adj, deg) \<Rightarrow>
          whileQueue adj
            \<lparr>queue = map ss_id (filter (\<lambda>ss. map_of deg (ss_id ss) = Some 0) subSteps),
             levels = [], visitedCount = 0, inDegree = deg\<rparr>)"

definition computeLevels :: "SubStep list \<Rightarrow> error + string list list" where
  "computeLevels subSteps =
     (case kahnPeel subSteps of
        Inl e \<Rightarrow> Inl e
      | Inr st \<Rightarrow>
          Inr (if visitedCount st < length subSteps then
                 (let laidOutNodes = set (concat (levels st));
                      remainingNodes = map ss_id (filter (\<lambda>ss. ss_id ss \<notin> laidOutNodes) subSteps)
                  in if length remainingNodes > 0 then levels st @ [remainingNodes] else levels st)
               else levels st))"

subsection \<open>Column packing\<close>

text \<open>
  \<^verbatim>\<open>levels.forEach\<close> with the constants \<^verbatim>\<open>cardWidth = 192\<close>, \<^verbatim>\<open>cardHeight = 76\<close>,
  \<^verbatim>\<open>hSpacing = 60\<close>, \<^verbatim>\<open>vSpacing = 20\<close> and the running \<^verbatim>\<open>currentX\<close>, \<^verbatim>\<open>currentY\<close>,
  \<^verbatim>\<open>rowMaxHeight\<close>, all starting from \<^verbatim>\<open>10\<close>, \<^verbatim>\<open>10\<close>, \<^verbatim>\<open>0\<close>; \<^verbatim>\<open>newPositions\<close> is a
  \<^verbatim>\<open>Map\<close> again.
\<close>


record Cursor =
  currentX :: real
  currentY :: real
  rowMaxHeight :: real
  newPositions :: "(string \<times> Position) list"

definition placeLevel :: "real \<Rightarrow> string list \<Rightarrow> Cursor \<Rightarrow> Cursor" where
  "placeLevel canvasWidth levelNodes c =
     (let cardWidth = 192; cardHeight = 76; hSpacing = 60; vSpacing = 20;
          columnWidth = cardWidth + hSpacing;
          columnHeight = real (length levelNodes) * (cardHeight + vSpacing) - vSpacing;
          c1 = (if currentX c > 10 \<and> currentX c + columnWidth > canvasWidth
                then c\<lparr>currentX := 10,
                       currentY := currentY c + rowMaxHeight c + vSpacing * 2,
                       rowMaxHeight := 0\<rparr>
                else c);
          c2 = c1\<lparr>newPositions :=
                    fold (\<lambda>(nodeIndexInLevel, nodeId).
                            AList.update nodeId
                              \<lparr>pos_x = currentX c1,
                               pos_y = currentY c1 + real nodeIndexInLevel * (cardHeight + vSpacing)\<rparr>)
                      (enumerate 0 levelNodes) (newPositions c1)\<rparr>
      in c2\<lparr>currentX := currentX c2 + columnWidth,
            rowMaxHeight := max (rowMaxHeight c2) columnHeight\<rparr>)"

definition packColumns :: "real \<Rightarrow> string list list \<Rightarrow> Cursor" where
  "packColumns canvasWidth lvls =
     fold (placeLevel canvasWidth) lvls
       \<lparr>currentX = 10, currentY = 10, rowMaxHeight = 0, newPositions = []\<rparr>"

text \<open>
  The bounding box over \<^verbatim>\<open>newPositions\<close>; with an inner canvas element its style
  becomes the box plus \<^verbatim>\<open>20\<close> pixels each way. The handler returns without effect when
  there are no sub-steps or no canvas element; otherwise it commits the new positions
  (\<^verbatim>\<open>newPositions.get(ss.id) || ss.position\<close>) through \<^verbatim>\<open>updateExtended\<close>. Its result
  here is the new editor state and the inner canvas size it set, if any.
\<close>


definition requiredSize :: "(string \<times> Position) list \<Rightarrow> real \<times> real" where
  "requiredSize positions =
     fold (\<lambda>(nodeId, pos) (requiredWidth, requiredHeight).
             (max requiredWidth (pos_x pos + 192), max requiredHeight (pos_y pos + 76)))
       positions (0, 0)"

definition handleAutoLayoutSubSteps ::
  "Canvas option \<Rightarrow> Editor \<Rightarrow> error + Editor \<times> (real \<times> real) option" where
  "handleAutoLayoutSubSteps canvas s =
     (case (case extendedDetails (editableTask s) of None \<Rightarrow> None | Some d \<Rightarrow> ed_subSteps d) of
        None \<Rightarrow> Inr (s, None)
      | Some subSteps \<Rightarrow>
          if length subSteps = 0 then Inr (s, None)
          else (case canvas of
                  None \<Rightarrow> Inr (s, None)
                | Some cv \<Rightarrow>
                   (case computeLevels subSteps of
                      Inl e \<Rightarrow> Inl e
                    | Inr lvls \<Rightarrow>
                        let positions = newPositions (packColumns (canvas_clientWidth cv) lvls);
                            (requiredWidth, requiredHeight) = requiredSize positions;
                            style = (case canvas_inner cv of
                                       None \<Rightarrow> None
                                     | Some inner \<Rightarrow> Some (requiredWidth + 20, requiredHeight + 20))
                        in (case updateExtended (\<lambda>d. d\<lparr>ed_subSteps :=
                                    Some (map (\<lambda>ss. ss\<lparr>ss_position :=
                                                 (case map_of positions (ss_id ss) of
                                                    Some p \<Rightarrow> Some p
                                                  | None \<Rightarrow> ss_position ss)\<rparr>)
                                            (subStepsOrEmpty d))\<rparr>) s of
                              Inl e \<Rightarrow> Inl e
                            | Inr s' \<Rightarrow> Inr (s', style)))))"

subsection \<open>Layering as the specification words it\<close>

text \<open>
  The edges whose endpoints are both present, the in-degree of a node counting only
  edges that leave a given set of nodes, the zero in-degree frontier of the nodes that
  remain, in their original order, and the layers obtained by peeling frontier after
  frontier until none is left.
\<close>


definition edgesOf :: "string set \<Rightarrow> SubStep list \<Rightarrow> (string \<times> string) list" where
  "edgesOf P xs =
     concat (map (\<lambda>ss. map (Pair (ss_id ss)) (filter (\<lambda>v. v \<in> P) (nextIdsOrEmpty ss))) xs)"

definition presentEdges :: "SubStep list \<Rightarrow> (string \<times> string) list" where
  "presentEdges subSteps = edgesOf (set (map ss_id subSteps)) subSteps"

definition inDegreeIn :: "(string \<times> string) list \<Rightarrow> string set \<Rightarrow> string \<Rightarrow> nat" where
  "inDegreeIn es S v = length (filter (\<lambda>e. fst e \<in> S \<and> snd e = v) es)"

definition frontier :: "SubStep list \<Rightarrow> string list \<Rightarrow> string list" where
  "frontier subSteps rem = filter (\<lambda>v. inDegreeIn (presentEdges subSteps) (set rem) v = 0) rem"

function peelLayers :: "SubStep list \<Rightarrow> string list \<Rightarrow> string list list" where
  "peelLayers subSteps rem =
     (let layer = frontier subSteps rem
      in if layer = [] then [] else layer # peelLayers subSteps (filter (\<lambda>v. v \<notin> set layer) rem))"
  by pat_completeness auto
termination
proof (relation "measure (\<lambda>(subSteps, rem). length rem)")
  show "wf (measure (\<lambda>(subSteps, rem). length rem))" by simp
next
  fix subSteps :: "SubStep list" and rem layer :: "string list"
  assume l: "layer = frontier subSteps rem" and ne: "layer \<noteq> []"
  from ne obtain v where v: "v \<in> set layer" by (cases layer) auto
  with l have "v \<in> set rem" by (simp add: frontier_def)
  with v have "length (filter (\<lambda>v. v \<notin> set layer) rem) < length rem"
    by (intro length_filter_less [of v]) auto
  then show "((subSteps, filter (\<lambda>v. v \<notin> set layer) rem), (subSteps, rem))
               \<in> measure (\<lambda>(subSteps, rem). length rem)"
    by simp
qed

declare peelLayers.simps [simp del]

text \<open>
  The order in which a round of the loop discovers the next layer: the targets of the
  edges that leave the previous layer, taken in the order of that layer and of each
  node's outgoing ids, every target at its last occurrence, keeping the targets
  without an incoming edge from the nodes \<open>rem\<close> that remain.
\<close>

definition discovered :: "SubStep list \<Rightarrow> string list \<Rightarrow> string list \<Rightarrow> string list" where
  "discovered subSteps rem layer =
     filter (\<lambda>v. inDegreeIn (presentEdges subSteps) (set rem) v = 0)
       (remdups (concat (map (\<lambda>u. map snd (filter (\<lambda>e. fst e = u) (presentEdges subSteps))) layer)))"

text \<open>
  The nodes that are in none of the given levels, in their original order, and the
  invariant of the peeling loop at the head of each round: the stored in-degrees count
  the edges that leave nodes not yet in a level, the queue holds the frontier of those
  nodes, and the levels so far hold distinct nodes without such incoming edges.
  \<open>discoveredChain\<close> says that in a sequence of levels, placed after the levels
  \<open>before\<close>, each level after the first is discovered from its predecessor.
\<close>


definition remaining :: "SubStep list \<Rightarrow> string list list \<Rightarrow> string list" where
  "remaining subSteps lvls = filter (\<lambda>v. v \<notin> set (concat lvls)) (map ss_id subSteps)"

fun discoveredChain :: "SubStep list \<Rightarrow> string list list \<Rightarrow> string list list \<Rightarrow> bool" where
  "discoveredChain subSteps before [] = True"
| "discoveredChain subSteps before [l] = True"
| "discoveredChain subSteps before (l # l' # ls) =
     (l' = discovered subSteps (remaining subSteps (before @ [l])) l
      \<and> discoveredChain subSteps (before @ [l]) (l' # ls))"

definition peelInv :: "SubStep list \<Rightarrow> Peeling \<Rightarrow> bool" where
  "peelInv subSteps st \<longleftrightarrow>
     (\<forall>v. map_of (inDegree st) v =
            (if v \<in> set (map ss_id subSteps)
             then Some (int (inDegreeIn (presentEdges subSteps) (set (remaining subSteps (levels st))) v))
             else None))
   \<and> distinct (queue st)
   \<and> set (queue st) = set (frontier subSteps (remaining subSteps (levels st)))
   \<and> distinct (concat (levels st))
   \<and> set (concat (levels st)) \<subseteq> set (map ss_id subSteps)
   \<and> (\<forall>v \<in> set (concat (levels st)).
         inDegreeIn (presentEdges subSteps) (set (remaining subSteps (levels st))) v = 0)
   \<and> visitedCount st = length (concat (levels st))"

section \<open>Example states\<close>

definition exampleTask :: "string \<Rightarrow> ProjectTask" where
  "exampleTask t =
     \<lparr>task_id = ''t1'', task_title = t, task_description = '''', extendedDetails = None\<rparr>"

definition exampleEditor :: Editor where
  "exampleEditor =
     \<lparr>editableTask = exampleTask ''draft'', localHistory = [], localRedoHistory = [],
      connectingState = None, selectedSubStepId = None, draggedSubStepIdRef = None,
      subStepDragOffsetRef = \<lparr>pos_x = 0, pos_y = 0\<rparr>\<rparr>"

definition retitle :: "string \<Rightarrow> ProjectTask \<Rightarrow> error + ProjectTask" where
  "retitle t prev = Inr (prev\<lparr>task_title := t\<rparr>)"

definition node :: "string \<Rightarrow> string list option \<Rightarrow> SubStep" where
  "node i ns =
     \<lparr>ss_id = i, ss_text = '''', ss_notes = None, ss_status = NOT_STARTED, ss_position = None,
      ss_nextSubStepIds = ns, ss_actionItems = None, ss_attachments = None\<rparr>"

definition editorOf :: "SubStep list \<Rightarrow> Editor" where
  "editorOf nodes =
     exampleEditor\<lparr>editableTask := (exampleTask ''draft'')\<lparr>extendedDetails :=
       Some \<lparr>ed_subSteps = Some nodes, ed_notes = '''', ed_attachments = None\<rparr>\<rparr>\<rparr>"

definition connecting :: "string \<Rightarrow> Editor \<Rightarrow> Editor" where
  "connecting a s = s\<lparr>connectingState := Some (a, \<lparr>pos_x = 0, pos_y = 0\<rparr>)\<rparr>"

definition exampleCanvas :: Canvas where
  "exampleCanvas =
     \<lparr>canvas_left = 100, canvas_top = 50, canvas_scrollLeft = 0, canvas_scrollTop = 0,
      canvas_clientWidth = 800, canvas_inner = Some (800, 600)\<rparr>"

definition exampleCards :: "string \<Rightarrow> (real \<times> real) option" where
  "exampleCards i = Some (192, 76)"

definition item :: "string \<Rightarrow> bool \<Rightarrow> ActionItem" where
  "item i c = \<lparr>ai_id = i, ai_text = '''', ai_completed = c\<rparr>"

definition fiveNodes :: "SubStep list" where
  "fiveNodes =
     [node ''1'' (Some [''2'', ''4'']), node ''2'' (Some [''3'']), node ''3'' None,
      node ''4'' (Some [''3'']), node ''5'' None]"

definition reversedPair :: "SubStep list" where
  "reversedPair = [node ''1'' (Some [''3'', ''2'']), node ''2'' None, node ''3'' None]"

definition twoCycle :: "SubStep list" where
  "twoCycle = [node ''1'' (Some [''2'']), node ''2'' (Some [''1''])]"

section \<open>Properties of the history\<close>

lemma session_append:
  "session (cs @ ds) s = (case session cs s of Inl e \<Rightarrow> Inl e | Inr s' \<Rightarrow> session ds s')"
  by (induction cs arbitrary: s) (auto split: sum.splits)

text \<open>
  C3. Undo right after a commit from a state restores the task of that state, and
  redo right after that undo restores the whole editor state the commit had produced
  (its task and both stacks).
\<close>

theorem undo_after_commit_redo_after_undo:
  assumes "updateEditableTaskWithHistory updater s = Inr s1"
  shows "editableTask (handleLocalUndo s1) = editableTask s
       \<and> localHistory (handleLocalUndo s1) = localHistory s
       \<and> editableTask (handleLocalRedo (handleLocalUndo s1)) = editableTask s1
       \<and> handleLocalRedo (handleLocalUndo s1) = s1"
  using assms
  by (auto simp: updateEditableTaskWithHistory_def handleLocalUndo_def handleLocalRedo_def
           split: sum.splits)

theorem undo_after_commit_redo_after_undo_witness:
  "updateEditableTaskWithHistory (retitle ''final'') exampleEditor
     = Inr (exampleEditor\<lparr>localHistory := [exampleTask ''draft''],
                         editableTask := exampleTask ''final''\<rparr>)
   \<and> editableTask (handleLocalUndo (exampleEditor\<lparr>localHistory := [exampleTask ''draft''],
                         editableTask := exampleTask ''final''\<rparr>)) = exampleTask ''draft''
   \<and> editableTask (handleLocalRedo (handleLocalUndo
        (exampleEditor\<lparr>localHistory := [exampleTask ''draft''],
                         editableTask := exampleTask ''final''\<rparr>))) = exampleTask ''final''"
proof -
  have c: "updateEditableTaskWithHistory (retitle ''final'') exampleEditor
     = Inr (exampleEditor\<lparr>localHistory := [exampleTask ''draft''],
                         editableTask := exampleTask ''final''\<rparr>)"
    by (simp add: updateEditableTaskWithHistory_def retitle_def exampleEditor_def
                  exampleTask_def)
  from undo_after_commit_redo_after_undo [OF c] c show ?thesis
    by (simp add: exampleEditor_def)
qed

text \<open>
  C4. A commit appends the pre-mutation task to the undo stack and empties the redo
  stack; so after any session that ends with a commit, whatever undos came before it,
  the redo stack is empty.
\<close>

theorem commit_pushes_and_clears_redo:
  assumes "session (cs @ [Commit updater]) s = Inr s2"
  shows "\<exists>s1. session cs s = Inr s1
            \<and> localHistory s2 = localHistory s1 @ [editableTask s1]
            \<and> localRedoHistory s2 = []"
  using assms
  by (auto simp: session_append updateEditableTaskWithHistory_def split: sum.splits)

theorem commit_pushes_and_clears_redo_witness:
  "session ([Commit (retitle ''a''), Undo] @ [Commit (retitle ''b'')]) exampleEditor
     = Inr (exampleEditor\<lparr>localHistory := [exampleTask ''draft''],
                         editableTask := exampleTask ''b''\<rparr>)
   \<and> (\<exists>s1. session [Commit (retitle ''a''), Undo] exampleEditor = Inr s1
          \<and> localRedoHistory s1 = [exampleTask ''a'']
          \<and> localHistory (exampleEditor\<lparr>localHistory := [exampleTask ''draft''],
                         editableTask := exampleTask ''b''\<rparr>) = localHistory s1 @ [editableTask s1])"
proof -
  have r: "session ([Commit (retitle ''a''), Undo] @ [Commit (retitle ''b'')]) exampleEditor
     = Inr (exampleEditor\<lparr>localHistory := [exampleTask ''draft''],
                         editableTask := exampleTask ''b''\<rparr>)"
    by (simp add: updateEditableTaskWithHistory_def handleLocalUndo_def retitle_def
                  exampleEditor_def exampleTask_def)
  have u: "session [Commit (retitle ''a''), Undo] exampleEditor
     = Inr (exampleEditor\<lparr>localRedoHistory := [exampleTask ''a'']\<rparr>)"
    by (simp add: updateEditableTaskWithHistory_def handleLocalUndo_def retitle_def
                  exampleEditor_def exampleTask_def)
  from commit_pushes_and_clears_redo [OF r] r u show ?thesis
    by (auto simp: exampleEditor_def)
qed

section \<open>Properties of the graph store\<close>

lemmas example_defs = editorOf_def exampleEditor_def exampleTask_def node_def connecting_def

lemmas store_defs =
  handleEndConnection_def handleUpdateSubStep_def handleToggleActionItem_def
  handleSubStepDrop_def handleSubStepDragStart_def
  updateExtended_def updateEditableTaskWithHistory_def subStepsOrEmpty_def
  nextIdsOrEmpty_def currentSubSteps_def outgoing_def arrayFromSet_def
  statusFromItems_def toggleItem_def

lemma updateExtended_Inr:
  "updateExtended f s = Inr s' \<longleftrightarrow>
     (\<exists>d. extendedDetails (editableTask s) = Some d
        \<and> s' = s\<lparr>localHistory := localHistory s @ [editableTask s], localRedoHistory := [],
                 editableTask := (editableTask s)\<lparr>extendedDetails := Some (f d)\<rparr>\<rparr>)"
  by (auto simp: updateExtended_def updateEditableTaskWithHistory_def split: option.splits)

lemma currentSubSteps_updateExtended:
  assumes "updateExtended f s = Inr s'"
  shows "\<exists>d. extendedDetails (editableTask s) = Some d
           \<and> currentSubSteps s = subStepsOrEmpty d
           \<and> currentSubSteps s' = subStepsOrEmpty (f d)
           \<and> localHistory s' = localHistory s @ [editableTask s]"
  using assms by (auto simp: updateExtended_Inr currentSubSteps_def)

lemma currentSubSteps_handleUpdateSubStep:
  assumes "handleUpdateSubStep i u s = Inr s'"
  shows "currentSubSteps s' = map (\<lambda>ss. if ss_id ss = i then u ss else ss) (currentSubSteps s)"
  using currentSubSteps_updateExtended [OF assms [unfolded handleUpdateSubStep_def]]
  by (auto simp: subStepsOrEmpty_def)

text \<open>
  C2. After \<^verbatim>\<open>handleRemoveSubStep\<close> the remaining nodes are the other nodes in their
  order, none of them lists the removed id among its outgoing ids, and the removal and
  the purge are one committed update: the undo stack grows by exactly the pre-removal
  task, and one undo brings that task back.
\<close>

theorem remove_purges_id:
  assumes "handleRemoveSubStep i s = Inr s'"
  shows "map ss_id (currentSubSteps s') = filter (\<lambda>j. j \<noteq> i) (map ss_id (currentSubSteps s))
       \<and> (\<forall>ss \<in> set (currentSubSteps s'). i \<notin> outgoing ss)
       \<and> localHistory s' = localHistory s @ [editableTask s]
       \<and> editableTask (handleLocalUndo s') = editableTask s"
proof -
  from assms obtain d where d: "extendedDetails (editableTask s) = Some d"
    and s': "s' = s\<lparr>selectedSubStepId :=
            (if selectedSubStepId s = Some i then None else selectedSubStepId s),
            localHistory := localHistory s @ [editableTask s], localRedoHistory := [],
            editableTask := (editableTask s)\<lparr>extendedDetails := Some (d\<lparr>ed_subSteps :=
         Some (map (\<lambda>ss. ss\<lparr>ss_nextSubStepIds :=
                      map_option (filter (\<lambda>j. j \<noteq> i)) (ss_nextSubStepIds ss)\<rparr>)
                 (filter (\<lambda>ss. ss_id ss \<noteq> i) (subStepsOrEmpty d)))\<rparr>)\<rparr>\<rparr>"
    unfolding handleRemoveSubStep_def updateExtended_Inr by auto
  have cur: "currentSubSteps s = subStepsOrEmpty d"
    using d by (simp add: currentSubSteps_def)
  have cur': "currentSubSteps s' = map (\<lambda>ss. ss\<lparr>ss_nextSubStepIds :=
                      map_option (filter (\<lambda>j. j \<noteq> i)) (ss_nextSubStepIds ss)\<rparr>)
                 (filter (\<lambda>ss. ss_id ss \<noteq> i) (subStepsOrEmpty d))"
    by (simp add: s' currentSubSteps_def subStepsOrEmpty_def)
  have ids: "map ss_id (currentSubSteps s') = filter (\<lambda>j. j \<noteq> i) (map ss_id (currentSubSteps s))"
    by (simp add: cur cur' filter_map comp_def)
  have out: "\<forall>ss \<in> set (currentSubSteps s'). i \<notin> outgoing ss"
  proof
    fix ss assume "ss \<in> set (currentSubSteps s')"
    then obtain t where "ss = t\<lparr>ss_nextSubStepIds :=
                      map_option (filter (\<lambda>j. j \<noteq> i)) (ss_nextSubStepIds t)\<rparr>"
      unfolding cur' by auto
    then show "i \<notin> outgoing ss"
      by (cases "ss_nextSubStepIds t") (simp_all add: outgoing_def nextIdsOrEmpty_def)
  qed
  have hist: "localHistory s' = localHistory s @ [editableTask s]"
    by (simp add: s')
  have undo: "editableTask (handleLocalUndo s') = editableTask s"
    by (simp add: s' handleLocalUndo_def)
  from ids out hist undo show ?thesis by blast
qed

theorem remove_purges_id_witness:
  "handleRemoveSubStep ''b'' (editorOf [node ''a'' (Some [''b'', ''c'']), node ''b'' (Some [''c'']), node ''c'' None])
     = Inr ((editorOf [node ''a'' (Some [''c'']), node ''c'' None])
              \<lparr>localHistory := [editableTask (editorOf [node ''a'' (Some [''b'', ''c'']), node ''b'' (Some [''c'']), node ''c'' None])]\<rparr>)
   \<and> map ss_id (currentSubSteps ((editorOf [node ''a'' (Some [''c'']), node ''c'' None])
              \<lparr>localHistory := [editableTask (editorOf [node ''a'' (Some [''b'', ''c'']), node ''b'' (Some [''c'']), node ''c'' None])]\<rparr>))
       = [''a'', ''c'']
   \<and> ''b'' \<notin> outgoing (node ''a'' (Some [''c'']))"
proof -
  have r: "handleRemoveSubStep ''b'' (editorOf [node ''a'' (Some [''b'', ''c'']), node ''b'' (Some [''c'']), node ''c'' None])
     = Inr ((editorOf [node ''a'' (Some [''c'']), node ''c'' None])
              \<lparr>localHistory := [editableTask (editorOf [node ''a'' (Some [''b'', ''c'']), node ''b'' (Some [''c'']), node ''c'' None])]\<rparr>)"
    by (simp add: handleRemoveSubStep_def updateExtended_def updateEditableTaskWithHistory_def
                  editorOf_def exampleEditor_def exampleTask_def node_def subStepsOrEmpty_def)
  from remove_purges_id [OF r] r show ?thesis
    by (simp add: editorOf_def exampleEditor_def exampleTask_def node_def currentSubSteps_def
                  subStepsOrEmpty_def outgoing_def nextIdsOrEmpty_def)
qed

lemma set_setAddAll: "set (setAddAll acc xs) = set acc \<union> set xs"
  by (induction xs arbitrary: acc) auto

lemma distinct_setAddAll: "distinct acc \<Longrightarrow> distinct (setAddAll acc xs)"
  by (induction xs arbitrary: acc) auto

lemma setAddAll_append: "setAddAll acc (xs @ ys) = setAddAll (setAddAll acc xs) ys"
  by (induction xs arbitrary: acc) auto

lemma setAddAll_present: "set xs \<subseteq> set acc \<Longrightarrow> setAddAll acc xs = acc"
  by (induction xs arbitrary: acc) auto

lemma setAddAll_fresh: "distinct (acc @ xs) \<Longrightarrow> setAddAll acc xs = acc @ xs"
  by (induction xs arbitrary: acc) auto

lemma set_arrayFromSet: "set (arrayFromSet xs) = set xs"
  by (simp add: arrayFromSet_def set_setAddAll)

lemma distinct_arrayFromSet: "distinct (arrayFromSet xs)"
  by (simp add: arrayFromSet_def distinct_setAddAll)

lemma arrayFromSet_distinct: "distinct xs \<Longrightarrow> arrayFromSet xs = xs"
  using setAddAll_fresh [of "[]" xs] by (simp add: arrayFromSet_def)

lemma arrayFromSet_again:
  "arrayFromSet (arrayFromSet (xs @ [b]) @ [b]) = arrayFromSet (xs @ [b])"
proof -
  let ?ys = "arrayFromSet (xs @ [b])"
  have "arrayFromSet (?ys @ [b]) = setAddAll (setAddAll [] ?ys) [b]"
    by (simp only: arrayFromSet_def setAddAll_append)
  also have "setAddAll [] ?ys = ?ys"
    using arrayFromSet_distinct [OF distinct_arrayFromSet] by (simp add: arrayFromSet_def)
  also have "setAddAll ?ys [b] = ?ys"
    by (rule setAddAll_present) (simp add: set_arrayFromSet)
  finally show ?thesis .
qed

lemma currentSubSteps_handleEndConnection:
  assumes "connectingState s = Some (a, p)" and "handleEndConnection b s = Inr s'"
  shows "currentSubSteps s' =
           (if a = b then currentSubSteps s
            else map (\<lambda>ss. if ss_id ss = a
                            then ss\<lparr>ss_nextSubStepIds := Some (arrayFromSet (nextIdsOrEmpty ss @ [b]))\<rparr>
                            else ss) (currentSubSteps s))"
proof (cases "a = b")
  case True
  with assms show ?thesis by (auto simp: handleEndConnection_def currentSubSteps_def)
next
  case False
  with assms obtain s1 where s1: "handleUpdateSubStep a
         (\<lambda>ss. ss\<lparr>ss_nextSubStepIds := Some (arrayFromSet (nextIdsOrEmpty ss @ [b]))\<rparr>) s = Inr s1"
    and s': "s' = s1\<lparr>connectingState := None\<rparr>"
    by (auto simp: handleEndConnection_def split: sum.splits)
  have "currentSubSteps s' = currentSubSteps s1"
    by (simp add: s' currentSubSteps_def)
  with currentSubSteps_handleUpdateSubStep [OF s1] False show ?thesis by simp
qed

lemma outgoing_connected:
  "outgoing (ss\<lparr>ss_nextSubStepIds := Some (arrayFromSet (nextIdsOrEmpty ss @ [b]))\<rparr>)
     = insert b (outgoing ss)"
  by (simp add: outgoing_def nextIdsOrEmpty_def set_arrayFromSet)

text \<open>
  C5, as amended. Ending a connection gesture from \<open>a\<close> on the card \<open>b\<close> keeps the
  node ids; it leaves every outgoing set unchanged when \<open>a = b\<close> (then nothing but the
  gesture state changes), when no node has id \<open>a\<close>, or when the edge exists already;
  otherwise, whether or not a node with id \<open>b\<close> exists, only the nodes with id \<open>a\<close>
  change, \<open>b\<close> joins their outgoing set, and \<open>b\<close> is appended to an outgoing list
  that has no duplicates.
\<close>

theorem end_connection_effect:
  assumes "connectingState s = Some (a, p)" and "handleEndConnection b s = Inr s'"
  shows "connectingState s' = None
       \<and> map ss_id (currentSubSteps s') = map ss_id (currentSubSteps s)
       \<and> (a = b \<longrightarrow> s' = s\<lparr>connectingState := None\<rparr>)
       \<and> (a = b \<or> a \<notin> set (map ss_id (currentSubSteps s))
            \<or> (\<forall>ss \<in> set (currentSubSteps s). ss_id ss = a \<longrightarrow> b \<in> outgoing ss)
          \<longrightarrow> map outgoing (currentSubSteps s') = map outgoing (currentSubSteps s))
       \<and> (a \<noteq> b \<longrightarrow>
            (\<forall>k < length (currentSubSteps s).
               (ss_id (currentSubSteps s ! k) \<noteq> a \<longrightarrow> currentSubSteps s' ! k = currentSubSteps s ! k)
             \<and> (ss_id (currentSubSteps s ! k) = a \<longrightarrow>
                  outgoing (currentSubSteps s' ! k) = insert b (outgoing (currentSubSteps s ! k))
                \<and> (distinct (nextIdsOrEmpty (currentSubSteps s ! k)) \<and> b \<notin> outgoing (currentSubSteps s ! k)
                     \<longrightarrow> nextIdsOrEmpty (currentSubSteps s' ! k)
                           = nextIdsOrEmpty (currentSubSteps s ! k) @ [b]))))"
proof -
  note cur = currentSubSteps_handleEndConnection [OF assms]
  have c1: "connectingState s' = None"
    using assms by (auto simp: handleEndConnection_def split: if_splits sum.splits)
  have c2: "map ss_id (currentSubSteps s') = map ss_id (currentSubSteps s)"
    by (simp add: cur comp_def)
  have c3: "a = b \<longrightarrow> s' = s\<lparr>connectingState := None\<rparr>"
    using assms by (auto simp: handleEndConnection_def)
  have c4: "a = b \<or> a \<notin> set (map ss_id (currentSubSteps s))
            \<or> (\<forall>ss \<in> set (currentSubSteps s). ss_id ss = a \<longrightarrow> b \<in> outgoing ss)
          \<longrightarrow> map outgoing (currentSubSteps s') = map outgoing (currentSubSteps s)"
  proof (intro impI)
    assume h: "a = b \<or> a \<notin> set (map ss_id (currentSubSteps s))
            \<or> (\<forall>ss \<in> set (currentSubSteps s). ss_id ss = a \<longrightarrow> b \<in> outgoing ss)"
    show "map outgoing (currentSubSteps s') = map outgoing (currentSubSteps s)"
    proof (cases "a = b")
      case True
      then show ?thesis by (simp add: cur)
    next
      case False
      have "\<forall>ss \<in> set (currentSubSteps s). ss_id ss = a \<longrightarrow> b \<in> outgoing ss"
        using h False by auto
      then have "\<And>ss. ss \<in> set (currentSubSteps s) \<Longrightarrow>
         outgoing (if ss_id ss = a
                   then ss\<lparr>ss_nextSubStepIds := Some (arrayFromSet (nextIdsOrEmpty ss @ [b]))\<rparr>
                   else ss) = outgoing ss"
        by (auto simp: outgoing_connected)
      then show ?thesis using False by (simp add: cur)
    qed
  qed
  have c5: "a \<noteq> b \<longrightarrow>
            (\<forall>k < length (currentSubSteps s).
               (ss_id (currentSubSteps s ! k) \<noteq> a \<longrightarrow> currentSubSteps s' ! k = currentSubSteps s ! k)
             \<and> (ss_id (currentSubSteps s ! k) = a \<longrightarrow>
                  outgoing (currentSubSteps s' ! k) = insert b (outgoing (currentSubSteps s ! k))
                \<and> (distinct (nextIdsOrEmpty (currentSubSteps s ! k)) \<and> b \<notin> outgoing (currentSubSteps s ! k)
                     \<longrightarrow> nextIdsOrEmpty (currentSubSteps s' ! k)
                           = nextIdsOrEmpty (currentSubSteps s ! k) @ [b])))"
  proof (intro impI allI)
    fix k assume ab: "a \<noteq> b" and k: "k < length (currentSubSteps s)"
    let ?ss = "currentSubSteps s ! k"
    have nth: "currentSubSteps s' ! k =
        (if ss_id ?ss = a
         then ?ss\<lparr>ss_nextSubStepIds := Some (arrayFromSet (nextIdsOrEmpty ?ss @ [b]))\<rparr>
         else ?ss)"
      using ab k by (simp add: cur)
    have fresh: "distinct (nextIdsOrEmpty ?ss) \<and> b \<notin> outgoing ?ss
        \<longrightarrow> arrayFromSet (nextIdsOrEmpty ?ss @ [b]) = nextIdsOrEmpty ?ss @ [b]"
      by (auto simp: outgoing_def intro: arrayFromSet_distinct)
    show "(ss_id ?ss \<noteq> a \<longrightarrow> currentSubSteps s' ! k = ?ss)
             \<and> (ss_id ?ss = a \<longrightarrow>
                  outgoing (currentSubSteps s' ! k) = insert b (outgoing ?ss)
                \<and> (distinct (nextIdsOrEmpty ?ss) \<and> b \<notin> outgoing ?ss
                     \<longrightarrow> nextIdsOrEmpty (currentSubSteps s' ! k) = nextIdsOrEmpty ?ss @ [b]))"
      using fresh by (auto simp: nth outgoing_connected) (simp add: nextIdsOrEmpty_def)
  qed
  from c1 c2 c3 c4 c5 show ?thesis by blast
qed

theorem end_connection_effect_witness:
  "connectingState (connecting ''a'' (editorOf [node ''a'' (Some [''c'']), node ''b'' None]))
     = Some (''a'', \<lparr>pos_x = 0, pos_y = 0\<rparr>)
   \<and> handleEndConnection ''b'' (connecting ''a'' (editorOf [node ''a'' (Some [''c'']), node ''b'' None]))
     = Inr ((editorOf [node ''a'' (Some [''c'', ''b'']), node ''b'' None])
              \<lparr>localHistory := [editableTask (editorOf [node ''a'' (Some [''c'']), node ''b'' None])]\<rparr>)
   \<and> map ss_id (currentSubSteps ((editorOf [node ''a'' (Some [''c'', ''b'']), node ''b'' None])
              \<lparr>localHistory := [editableTask (editorOf [node ''a'' (Some [''c'']), node ''b'' None])]\<rparr>))
       = [''a'', ''b'']"
proof -
  have h1: "connectingState (connecting ''a'' (editorOf [node ''a'' (Some [''c'']), node ''b'' None]))
     = Some (''a'', \<lparr>pos_x = 0, pos_y = 0\<rparr>)"
    by (simp add: example_defs)
  have h2: "handleEndConnection ''b'' (connecting ''a'' (editorOf [node ''a'' (Some [''c'']), node ''b'' None]))
     = Inr ((editorOf [node ''a'' (Some [''c'', ''b'']), node ''b'' None])
              \<lparr>localHistory := [editableTask (editorOf [node ''a'' (Some [''c'']), node ''b'' None])]\<rparr>)"
    by (simp add: store_defs example_defs)
  from end_connection_effect [OF h1 h2] h1 h2 show ?thesis
    by (simp add: store_defs example_defs)
qed

text \<open>
  C5 as stated fails for an absent target: with the single node \<open>a\<close>, a release that
  reports the id \<open>ghost\<close> adds \<open>ghost\<close> to the outgoing ids of \<open>a\<close>.
\<close>

theorem end_connection_absent_target_counterexample:
  "''ghost'' \<notin> set (map ss_id (currentSubSteps (connecting ''a'' (editorOf [node ''a'' (Some [])]))))
   \<and> handleEndConnection ''ghost'' (connecting ''a'' (editorOf [node ''a'' (Some [])]))
     = Inr ((editorOf [node ''a'' (Some [''ghost''])])
              \<lparr>localHistory := [editableTask (editorOf [node ''a'' (Some [])])]\<rparr>)
   \<and> map outgoing (currentSubSteps (connecting ''a'' (editorOf [node ''a'' (Some [])]))) = [{}]
   \<and> map outgoing (currentSubSteps ((editorOf [node ''a'' (Some [''ghost''])])
              \<lparr>localHistory := [editableTask (editorOf [node ''a'' (Some [])])]\<rparr>)) = [{''ghost''}]"
  by (simp add: store_defs example_defs)

text \<open>
  C8. A second connection gesture from \<open>a\<close> to \<open>b\<close> right after the first leaves the
  list of sub-steps exactly as the first left it; and where every node with id \<open>a\<close>
  already has \<open>b\<close> among its outgoing ids, the gesture changes no outgoing set.
\<close>

theorem end_connection_idempotent:
  assumes "connectingState s = Some (a, p)"
    and "handleEndConnection b s = Inr s1"
    and "handleEndConnection b (s1\<lparr>connectingState := Some (a, q)\<rparr>) = Inr s2"
  shows "currentSubSteps s2 = currentSubSteps s1
       \<and> ((\<forall>ss \<in> set (currentSubSteps s). ss_id ss = a \<longrightarrow> b \<in> outgoing ss)
            \<longrightarrow> map outgoing (currentSubSteps s1) = map outgoing (currentSubSteps s))"
proof -
  note first = currentSubSteps_handleEndConnection [OF assms(1,2)]
  have "connectingState (s1\<lparr>connectingState := Some (a, q)\<rparr>) = Some (a, q)" by simp
  note second = currentSubSteps_handleEndConnection [OF this assms(3)]
  have cur: "currentSubSteps (s1\<lparr>connectingState := Some (a, q)\<rparr>) = currentSubSteps s1"
    by (simp add: currentSubSteps_def)
  have twice: "currentSubSteps s2 = currentSubSteps s1"
  proof (cases "a = b")
    case True
    then show ?thesis using second cur by simp
  next
    case False
    have "currentSubSteps s2 = map (\<lambda>ss. if ss_id ss = a
              then ss\<lparr>ss_nextSubStepIds := Some (arrayFromSet (nextIdsOrEmpty ss @ [b]))\<rparr>
              else ss) (currentSubSteps s1)"
      using second cur False by simp
    also have "\<dots> = currentSubSteps s1"
      using False
      by (simp add: first comp_def nextIdsOrEmpty_def arrayFromSet_again)
    finally show ?thesis .
  qed
  have same: "(\<forall>ss \<in> set (currentSubSteps s). ss_id ss = a \<longrightarrow> b \<in> outgoing ss)
            \<longrightarrow> map outgoing (currentSubSteps s1) = map outgoing (currentSubSteps s)"
  proof
    assume h: "\<forall>ss \<in> set (currentSubSteps s). ss_id ss = a \<longrightarrow> b \<in> outgoing ss"
    then have "\<And>ss. ss \<in> set (currentSubSteps s) \<Longrightarrow>
         outgoing (if ss_id ss = a
                   then ss\<lparr>ss_nextSubStepIds := Some (arrayFromSet (nextIdsOrEmpty ss @ [b]))\<rparr>
                   else ss) = outgoing ss"
      by (auto simp: outgoing_connected)
    then show "map outgoing (currentSubSteps s1) = map outgoing (currentSubSteps s)"
      by (simp add: first)
  qed
  from twice same show ?thesis by blast
qed

theorem end_connection_idempotent_witness:
  "handleEndConnection ''b'' (connecting ''a'' (editorOf [node ''a'' None, node ''b'' None]))
     = Inr ((editorOf [node ''a'' (Some [''b'']), node ''b'' None])
        \<lparr>localHistory := [editableTask (editorOf [node ''a'' None, node ''b'' None])]\<rparr>)
   \<and> handleEndConnection ''b'' (((editorOf [node ''a'' (Some [''b'']), node ''b'' None])
        \<lparr>localHistory := [editableTask (editorOf [node ''a'' None, node ''b'' None])]\<rparr>)
          \<lparr>connectingState := Some (''a'', \<lparr>pos_x = 0, pos_y = 0\<rparr>)\<rparr>)
     = Inr ((editorOf [node ''a'' (Some [''b'']), node ''b'' None])
        \<lparr>localHistory := [editableTask (editorOf [node ''a'' None, node ''b'' None]),
                          editableTask (editorOf [node ''a'' (Some [''b'']), node ''b'' None])]\<rparr>)
   \<and> currentSubSteps ((editorOf [node ''a'' (Some [''b'']), node ''b'' None])
        \<lparr>localHistory := [editableTask (editorOf [node ''a'' None, node ''b'' None]),
                          editableTask (editorOf [node ''a'' (Some [''b'']), node ''b'' None])]\<rparr>)
     = currentSubSteps ((editorOf [node ''a'' (Some [''b'']), node ''b'' None])
        \<lparr>localHistory := [editableTask (editorOf [node ''a'' None, node ''b'' None])]\<rparr>)"
proof -
  let ?s = "connecting ''a'' (editorOf [node ''a'' None, node ''b'' None])"
  let ?s1 = "(editorOf [node ''a'' (Some [''b'']), node ''b'' None])
        \<lparr>localHistory := [editableTask (editorOf [node ''a'' None, node ''b'' None])]\<rparr>"
  let ?s2 = "(editorOf [node ''a'' (Some [''b'']), node ''b'' None])
        \<lparr>localHistory := [editableTask (editorOf [node ''a'' None, node ''b'' None]),
                          editableTask (editorOf [node ''a'' (Some [''b'']), node ''b'' None])]\<rparr>"
  have h1: "connectingState ?s = Some (''a'', \<lparr>pos_x = 0, pos_y = 0\<rparr>)"
    by (simp add: example_defs)
  have h2: "handleEndConnection ''b'' ?s = Inr ?s1"
    by (simp add: store_defs example_defs)
  have h3: "handleEndConnection ''b'' (?s1\<lparr>connectingState := Some (''a'', \<lparr>pos_x = 0, pos_y = 0\<rparr>)\<rparr>)
              = Inr ?s2"
    by (simp add: store_defs example_defs)
  from end_connection_idempotent [OF h1 h2 h3] h2 h3 show ?thesis by blast
qed

lemma updated_position:
  assumes "handleUpdateSubStep i (\<lambda>ss. ss\<lparr>ss_position := Some p\<rparr>) s = Inr s'"
    and "ss \<in> set (currentSubSteps s')" and "ss_id ss = i"
  shows "ss_position ss = Some p"
proof -
  from assms(2) obtain t where
    t: "ss = (if ss_id t = i then t\<lparr>ss_position := Some p\<rparr> else t)"
    unfolding currentSubSteps_handleUpdateSubStep [OF assms(1)] set_map by (rule imageE)
  show ?thesis
  proof (cases "ss_id t = i")
    case True
    with t show ?thesis by simp
  next
    case False
    with t assms(3) show ?thesis by simp
  qed
qed

lemma handleSubStepDrop_inner:
  assumes "draggedSubStepIdRef s = Some dragged" and "dragged \<noteq> []"
    and "canvas_inner c = Some (scrollWidth, scrollHeight)"
    and "cards dragged = Some (cardWidth, cardHeight)"
  shows "handleSubStepDrop clientX clientY (Some c) cards s =
     (case handleUpdateSubStep dragged (\<lambda>ss. ss\<lparr>ss_position := Some
              \<lparr>pos_x = max 0 (min (clientX - canvas_left c - pos_x (subStepDragOffsetRef s) + canvas_scrollLeft c)
                                 (scrollWidth - cardWidth)),
               pos_y = max 0 (min (clientY - canvas_top c - pos_y (subStepDragOffsetRef s) + canvas_scrollTop c)
                                 (scrollHeight - cardHeight))\<rparr>\<rparr>) s of
        Inl e \<Rightarrow> Inl e
      | Inr s' \<Rightarrow> Inr (s'\<lparr>draggedSubStepIdRef := None\<rparr>))"
  using assms(2) unfolding handleSubStepDrop_def Let_def assms(1,3,4) option.case prod.case
  by simp

lemma clamp_bounds:
  fixes v :: real
  shows "0 \<le> max 0 (min v (w - c))" and "c \<le> w \<Longrightarrow> max 0 (min v (w - c)) + c \<le> w"
  by (simp_all add: max_def min_def)

text \<open>
  C9. After a drag start on a node (its id not empty) and a drop, the dragged node's
  position is the canvas-local
  pointer coordinate minus the offset taken at drag start, clamped on each axis by
  \<open>max 0 (min _ (size - card))\<close> with the inner canvas's size as measured by the drop
  handler. The position is never negative, and when the card is no larger than the
  inner canvas the card ends inside it.
\<close>

theorem drop_position_clamped:
  assumes "handleSubStepDrop clientX clientY (Some c) cards
             (handleSubStepDragStart startX startY cardLeft cardTop dragged s) = Inr s'"
    and "canvas_inner c = Some (scrollWidth, scrollHeight)"
    and "cards dragged = Some (cardWidth, cardHeight)"
    and "ss \<in> set (currentSubSteps s')" and "ss_id ss = dragged" and "dragged \<noteq> []"
  shows "\<exists>p. ss_position ss = Some p
     \<and> pos_x p = max 0 (min ((clientX - canvas_left c + canvas_scrollLeft c) - (startX - cardLeft))
                            (scrollWidth - cardWidth))
     \<and> pos_y p = max 0 (min ((clientY - canvas_top c + canvas_scrollTop c) - (startY - cardTop))
                            (scrollHeight - cardHeight))
     \<and> 0 \<le> pos_x p \<and> 0 \<le> pos_y p
     \<and> (cardWidth \<le> scrollWidth \<longrightarrow> pos_x p + cardWidth \<le> scrollWidth)
     \<and> (cardHeight \<le> scrollHeight \<longrightarrow> pos_y p + cardHeight \<le> scrollHeight)"
proof -
  let ?s0 = "handleSubStepDragStart startX startY cardLeft cardTop dragged s"
  define vx where "vx = clientX - canvas_left c - (startX - cardLeft) + canvas_scrollLeft c"
  define vy where "vy = clientY - canvas_top c - (startY - cardTop) + canvas_scrollTop c"
  define p where "p = \<lparr>pos_x = max 0 (min vx (scrollWidth - cardWidth)),
                       pos_y = max 0 (min vy (scrollHeight - cardHeight))\<rparr>"
  have d: "draggedSubStepIdRef ?s0 = Some dragged"
    and off: "pos_x (subStepDragOffsetRef ?s0) = startX - cardLeft"
             "pos_y (subStepDragOffsetRef ?s0) = startY - cardTop"
    by (simp_all add: handleSubStepDragStart_def)
  have "(case handleUpdateSubStep dragged (\<lambda>ss. ss\<lparr>ss_position := Some p\<rparr>) ?s0 of
        Inl e \<Rightarrow> Inl e
      | Inr s' \<Rightarrow> Inr (s'\<lparr>draggedSubStepIdRef := None\<rparr>)) = Inr s'"
    using assms(1)
    unfolding handleSubStepDrop_inner [where cards = cards, OF d assms(6,2,3)] off p_def vx_def vy_def .
  then obtain s1 where
    s1: "handleUpdateSubStep dragged (\<lambda>ss. ss\<lparr>ss_position := Some p\<rparr>) ?s0 = Inr s1"
    and s': "s' = s1\<lparr>draggedSubStepIdRef := None\<rparr>"
    by (cases "handleUpdateSubStep dragged (\<lambda>ss. ss\<lparr>ss_position := Some p\<rparr>) ?s0") simp_all
  have "currentSubSteps s' = currentSubSteps s1"
    by (simp add: s' currentSubSteps_def)
  with assms(4) have "ss \<in> set (currentSubSteps s1)" by simp
  from updated_position [OF s1 this assms(5)]
  have pos: "ss_position ss = Some p" .
  have x: "vx = (clientX - canvas_left c + canvas_scrollLeft c) - (startX - cardLeft)"
    and y: "vy = (clientY - canvas_top c + canvas_scrollTop c) - (startY - cardTop)"
    by (simp_all add: vx_def vy_def)
  have px: "pos_x p = max 0 (min vx (scrollWidth - cardWidth))"
    and py: "pos_y p = max 0 (min vy (scrollHeight - cardHeight))"
    by (simp_all add: p_def)
  show ?thesis
    unfolding x [symmetric] y [symmetric]
    using pos px py clamp_bounds [where v = vx and w = scrollWidth and c = cardWidth]
      clamp_bounds [where v = vy and w = scrollHeight and c = cardHeight]
    by (intro exI [of _ p]) simp
qed

theorem drop_position_clamped_witness:
  "handleSubStepDrop 2000 10 (Some exampleCanvas) exampleCards
     (handleSubStepDragStart 120 70 110 60 ''a'' (editorOf [node ''a'' None, node ''b'' None]))
   = Inr ((editorOf [(node ''a'' None)\<lparr>ss_position := Some \<lparr>pos_x = 608, pos_y = 0\<rparr>\<rparr>, node ''b'' None])
            \<lparr>localHistory := [editableTask (editorOf [node ''a'' None, node ''b'' None])],
              subStepDragOffsetRef := \<lparr>pos_x = 10, pos_y = 10\<rparr>\<rparr>)
   \<and> (\<exists>p. ss_position ((node ''a'' None)\<lparr>ss_position := Some \<lparr>pos_x = 608, pos_y = 0\<rparr>\<rparr>) = Some p
        \<and> pos_x p + 192 \<le> 800 \<and> pos_y p + 76 \<le> 600)"
proof -
  let ?n = "(node ''a'' None)\<lparr>ss_position := Some \<lparr>pos_x = 608, pos_y = 0\<rparr>\<rparr>"
  let ?s' = "(editorOf [?n, node ''b'' None])
            \<lparr>localHistory := [editableTask (editorOf [node ''a'' None, node ''b'' None])],
              subStepDragOffsetRef := \<lparr>pos_x = 10, pos_y = 10\<rparr>\<rparr>"
  have h1: "handleSubStepDrop 2000 10 (Some exampleCanvas) exampleCards
     (handleSubStepDragStart 120 70 110 60 ''a'' (editorOf [node ''a'' None, node ''b'' None]))
     = Inr ?s'"
    by (simp add: store_defs example_defs exampleCanvas_def exampleCards_def)
  have h2: "canvas_inner exampleCanvas = Some (800, 600)" by (simp add: exampleCanvas_def)
  have h3: "exampleCards ''a'' = Some (192, 76)" by (simp add: exampleCards_def)
  have h4: "?n \<in> set (currentSubSteps ?s')" by (simp add: store_defs example_defs)
  have h5: "ss_id ?n = ''a''" by (simp add: node_def)
  have h6: "''a'' \<noteq> []" by simp
  from drop_position_clamped [where cards = exampleCards, OF h1 h2 h3 h4 h5 h6] h1 show ?thesis by simp
qed

text \<open>
  C10. Toggling an action item leaves the sub-steps with another id as they are; in
  the sub-step with the given id only the action items and the status change: the
  matching item's flag is negated, and the status is \<open>NOT_STARTED\<close> without items,
  \<open>COMPLETED\<close> when all new items are completed, \<open>IN_PROGRESS\<close> when some but not all
  are, and \<open>NOT_STARTED\<close> when none is.
\<close>

theorem toggle_recomputes_status:
  assumes "handleToggleActionItem subStepId itemId s = Inr s'"
  shows "length (currentSubSteps s') = length (currentSubSteps s)
     \<and> (\<forall>k < length (currentSubSteps s).
          (ss_id (currentSubSteps s ! k) \<noteq> subStepId \<longrightarrow> currentSubSteps s' ! k = currentSubSteps s ! k)
        \<and> (ss_id (currentSubSteps s ! k) = subStepId \<longrightarrow>
             currentSubSteps s' ! k
               = (currentSubSteps s ! k)\<lparr>ss_actionItems := ss_actionItems (currentSubSteps s' ! k),
                                          ss_status := ss_status (currentSubSteps s' ! k)\<rparr>
           \<and> ss_actionItems (currentSubSteps s' ! k)
               = map_option (map (\<lambda>item. if ai_id item = itemId
                                          then item\<lparr>ai_completed := \<not> ai_completed item\<rparr> else item))
                            (ss_actionItems (currentSubSteps s ! k))
           \<and> (case ss_actionItems (currentSubSteps s' ! k) of
                 None \<Rightarrow> ss_status (currentSubSteps s' ! k) = NOT_STARTED
               | Some items \<Rightarrow>
                   ss_status (currentSubSteps s' ! k) =
                     (if items = [] then NOT_STARTED
                      else if \<forall>i \<in> set items. ai_completed i then COMPLETED
                      else if \<exists>i \<in> set items. ai_completed i then IN_PROGRESS
                      else NOT_STARTED))))"
proof -
  let ?f = "\<lambda>ss. if ss_id ss \<noteq> subStepId then ss
                 else (let newActionItems = map_option (map (toggleItem itemId)) (ss_actionItems ss)
                       in ss\<lparr>ss_actionItems := newActionItems,
                             ss_status := statusFromItems newActionItems\<rparr>)"
  from currentSubSteps_updateExtended [OF assms [unfolded handleToggleActionItem_def]]
  have cur: "currentSubSteps s' = map ?f (currentSubSteps s)"
    by (auto simp: subStepsOrEmpty_def)
  have st: "\<And>a. (case a of None \<Rightarrow> statusFromItems a = NOT_STARTED
            | Some items \<Rightarrow> statusFromItems a =
                     (if items = [] then NOT_STARTED
                      else if \<forall>i \<in> set items. ai_completed i then COMPLETED
                      else if \<exists>i \<in> set items. ai_completed i then IN_PROGRESS
                      else NOT_STARTED))"
    by (auto simp: statusFromItems_def list_all_iff list_ex_iff split: option.splits)
  have tg: "toggleItem itemId = (\<lambda>item. if ai_id item = itemId
                                          then item\<lparr>ai_completed := \<not> ai_completed item\<rparr> else item)"
    by (rule ext) (simp add: toggleItem_def)
  show ?thesis
  proof (intro conjI allI impI)
    show "length (currentSubSteps s') = length (currentSubSteps s)" by (simp add: cur)
  next
    fix k assume "k < length (currentSubSteps s)" "ss_id (currentSubSteps s ! k) \<noteq> subStepId"
    then show "currentSubSteps s' ! k = currentSubSteps s ! k" by (simp add: cur)
  next
    fix k assume k: "k < length (currentSubSteps s)" "ss_id (currentSubSteps s ! k) = subStepId"
    then have nth: "currentSubSteps s' ! k = (currentSubSteps s ! k)
         \<lparr>ss_actionItems := map_option (map (toggleItem itemId)) (ss_actionItems (currentSubSteps s ! k)),
           ss_status := statusFromItems (map_option (map (toggleItem itemId))
                                          (ss_actionItems (currentSubSteps s ! k)))\<rparr>"
      by (simp add: cur Let_def)
    show "currentSubSteps s' ! k
               = (currentSubSteps s ! k)\<lparr>ss_actionItems := ss_actionItems (currentSubSteps s' ! k),
                                          ss_status := ss_status (currentSubSteps s' ! k)\<rparr>"
      by (simp add: nth)
    show "ss_actionItems (currentSubSteps s' ! k)
               = map_option (map (\<lambda>item. if ai_id item = itemId
                                          then item\<lparr>ai_completed := \<not> ai_completed item\<rparr> else item))
                            (ss_actionItems (currentSubSteps s ! k))"
      by (simp add: nth tg)
    show "(case ss_actionItems (currentSubSteps s' ! k) of
                 None \<Rightarrow> ss_status (currentSubSteps s' ! k) = NOT_STARTED
               | Some items \<Rightarrow>
                   ss_status (currentSubSteps s' ! k) =
                     (if items = [] then NOT_STARTED
                      else if \<forall>i \<in> set items. ai_completed i then COMPLETED
                      else if \<exists>i \<in> set items. ai_completed i then IN_PROGRESS
                      else NOT_STARTED))"
    proof -
      define a where "a = map_option (map (toggleItem itemId)) (ss_actionItems (currentSubSteps s ! k))"
      have 1: "ss_actionItems (currentSubSteps s' ! k) = a"
        and 2: "ss_status (currentSubSteps s' ! k) = statusFromItems a"
        by (simp_all add: nth a_def)
      show ?thesis unfolding 1 2 by (rule st)
    qed
  qed
qed

theorem toggle_recomputes_status_witness:
  "handleToggleActionItem ''a'' ''i2''
     (editorOf [(node ''a'' None)\<lparr>ss_actionItems := Some [item ''i1'' True, item ''i2'' False]\<rparr>,
                node ''b'' None])
   = Inr ((editorOf [(node ''a'' None)\<lparr>ss_actionItems := Some [item ''i1'' True, item ''i2'' True],
                                         ss_status := COMPLETED\<rparr>, node ''b'' None])
            \<lparr>localHistory := [editableTask (editorOf
                [(node ''a'' None)\<lparr>ss_actionItems := Some [item ''i1'' True, item ''i2'' False]\<rparr>,
                 node ''b'' None])]\<rparr>)
   \<and> length (currentSubSteps ((editorOf [(node ''a'' None)\<lparr>ss_actionItems := Some [item ''i1'' True, item ''i2'' True],
                                         ss_status := COMPLETED\<rparr>, node ''b'' None])
            \<lparr>localHistory := [editableTask (editorOf
                [(node ''a'' None)\<lparr>ss_actionItems := Some [item ''i1'' True, item ''i2'' False]\<rparr>,
                 node ''b'' None])]\<rparr>))
     = length (currentSubSteps (editorOf [(node ''a'' None)\<lparr>ss_actionItems := Some [item ''i1'' True, item ''i2'' False]\<rparr>,
                node ''b'' None]))"
proof -
  have h: "handleToggleActionItem ''a'' ''i2''
     (editorOf [(node ''a'' None)\<lparr>ss_actionItems := Some [item ''i1'' True, item ''i2'' False]\<rparr>,
                node ''b'' None])
   = Inr ((editorOf [(node ''a'' None)\<lparr>ss_actionItems := Some [item ''i1'' True, item ''i2'' True],
                                         ss_status := COMPLETED\<rparr>, node ''b'' None])
            \<lparr>localHistory := [editableTask (editorOf
                [(node ''a'' None)\<lparr>ss_actionItems := Some [item ''i1'' True, item ''i2'' False]\<rparr>,
                 node ''b'' None])]\<rparr>)"
    by (simp add: store_defs example_defs item_def)
  from toggle_recomputes_status [OF h] h show ?thesis by blast
qed

section \<open>Properties of the automatic layout\<close>

lemma edgesOf_Nil: "edgesOf P [] = []"
  by (simp add: edgesOf_def)

lemma edgesOf_Cons:
  "edgesOf P (ss # xs) = map (Pair (ss_id ss)) (filter (\<lambda>v. v \<in> P) (nextIdsOrEmpty ss)) @ edgesOf P xs"
  by (simp add: edgesOf_def)

lemma initMaps_fold:
  fixes a :: adjacency and d :: degrees
  shows "map_of (fst (fold (\<lambda>ss (adj, deg). (AList.update (ss_id ss) [] adj, AList.update (ss_id ss) 0 deg)) xs (a, d))) u
     = (if u \<in> ss_id ` set xs then Some [] else map_of a u)
   \<and> map_of (snd (fold (\<lambda>ss (adj, deg). (AList.update (ss_id ss) [] adj, AList.update (ss_id ss) 0 deg)) xs (a, d))) u
     = (if u \<in> ss_id ` set xs then Some 0 else map_of d u)"
  by (induction xs arbitrary: a d) (auto simp: update_conv')

lemma map_of_initMaps:
  "map_of (fst (initMaps xs)) u = (if u \<in> ss_id ` set xs then Some [] else None)"
  "map_of (snd (initMaps xs)) u = (if u \<in> ss_id ` set xs then Some 0 else None)"
  using initMaps_fold [of xs "[]" "[]" u] by (simp_all add: initMaps_def)

lemma addEdges_result:
  assumes "map_of adj src = Some l" and "dom (map_of adj) = P" and "P \<subseteq> dom (map_of deg)"
  shows "\<exists>adj' deg'. addEdges src vs (adj, deg) = Inr (adj', deg')
           \<and> map_of adj' = (map_of adj)(src \<mapsto> l @ filter (\<lambda>v. v \<in> P) vs)
           \<and> (\<forall>v. map_of deg' v
                  = map_option (\<lambda>n. n + int (count_list (filter (\<lambda>v. v \<in> P) vs) v)) (map_of deg v))"
  using assms
proof (induction vs arbitrary: adj deg l)
  case Nil
  then show ?case by (auto simp: option.map_ident map_option.identity fun_upd_idem_iff intro!: ext)
next
  case (Cons nextId rest)
  show ?case
  proof (cases "nextId \<in> P")
    case False
    then have "map_of adj nextId = None" using Cons.prems(2) by auto
    with False Cons.IH [OF Cons.prems] show ?thesis by simp
  next
    case True
    then obtain n where n: "map_of deg nextId = Some n" using Cons.prems(3) by auto
    from True have has: "map_of adj nextId \<noteq> None" using Cons.prems(2) by auto
    let ?adj = "AList.update src (l @ [nextId]) adj"
    let ?deg = "AList.update nextId (n + 1) deg"
    have 1: "map_of ?adj src = Some (l @ [nextId])" by (simp add: update_conv')
    have 2: "dom (map_of ?adj) = P" using Cons.prems(1,2) by (auto simp: update_conv')
    have 3: "P \<subseteq> dom (map_of ?deg)" using Cons.prems(3) by (auto simp: update_conv')
    from Cons.IH [OF 1 2 3] obtain adj' deg' where
      r: "addEdges src rest (?adj, ?deg) = Inr (adj', deg')"
      and a: "map_of adj' = (map_of ?adj)(src \<mapsto> (l @ [nextId]) @ filter (\<lambda>v. v \<in> P) rest)"
      and d: "\<forall>v. map_of deg' v
                  = map_option (\<lambda>n. n + int (count_list (filter (\<lambda>v. v \<in> P) rest) v)) (map_of ?deg v)"
      by blast
    have "addEdges src (nextId # rest) (adj, deg) = Inr (adj', deg')"
      using has Cons.prems(1) n r by simp
    moreover have "map_of adj' = (map_of adj)(src \<mapsto> l @ filter (\<lambda>v. v \<in> P) (nextId # rest))"
      using a True by (simp add: update_conv')
    moreover have "\<forall>v. map_of deg' v
        = map_option (\<lambda>n. n + int (count_list (filter (\<lambda>v. v \<in> P) (nextId # rest)) v)) (map_of deg v)"
      using d True n by (auto simp: update_conv')
    ultimately show ?thesis by blast
  qed
qed

lemma count_targets:
  "length (filter (\<lambda>e. snd e = v) (map (Pair a) ts)) = count_list ts v"
  by (induction ts) auto

lemma buildEdges_result:
  assumes "dom (map_of adj) = P" and "P \<subseteq> dom (map_of deg)" and "ss_id ` set xs \<subseteq> P"
  shows "\<exists>adj' deg'. buildEdges xs (adj, deg) = Inr (adj', deg')
           \<and> (\<forall>u. map_of adj' u
                  = map_option (\<lambda>l. l @ map snd (filter (\<lambda>e. fst e = u) (edgesOf P xs))) (map_of adj u))
           \<and> (\<forall>v. map_of deg' v
                  = map_option (\<lambda>n. n + int (length (filter (\<lambda>e. snd e = v) (edgesOf P xs)))) (map_of deg v))"
  using assms
proof (induction xs arbitrary: adj deg)
  case Nil
  then show ?case by (simp add: edgesOf_Nil option.map_ident)
next
  case (Cons ss xs)
  from Cons.prems obtain l where l: "map_of adj (ss_id ss) = Some l" by auto
  let ?ts = "filter (\<lambda>v. v \<in> P) (nextIdsOrEmpty ss)"
  from addEdges_result [OF l Cons.prems(1,2), of "nextIdsOrEmpty ss"] obtain adj1 deg1 where
    r1: "addEdges (ss_id ss) (nextIdsOrEmpty ss) (adj, deg) = Inr (adj1, deg1)"
    and a1: "map_of adj1 = (map_of adj)(ss_id ss \<mapsto> l @ ?ts)"
    and d1: "\<forall>v. map_of deg1 v = map_option (\<lambda>n. n + int (count_list ?ts v)) (map_of deg v)"
    by blast
  have dom1: "dom (map_of adj1) = P" using a1 l Cons.prems(1) by auto
  have dom2: "P \<subseteq> dom (map_of deg1)" using d1 Cons.prems(2) by (auto simp: dom_def)
  have sub: "ss_id ` set xs \<subseteq> P" using Cons.prems(3) by auto
  from Cons.IH [OF dom1 dom2 sub] obtain adj' deg' where
    r: "buildEdges xs (adj1, deg1) = Inr (adj', deg')"
    and a: "\<forall>u. map_of adj' u
                  = map_option (\<lambda>l. l @ map snd (filter (\<lambda>e. fst e = u) (edgesOf P xs))) (map_of adj1 u)"
    and d: "\<forall>v. map_of deg' v
                  = map_option (\<lambda>n. n + int (length (filter (\<lambda>e. snd e = v) (edgesOf P xs)))) (map_of deg1 v)"
    by blast
  have cnt: "\<And>v. length (filter (\<lambda>e. snd e = v) (map (Pair (ss_id ss)) ?ts)) = count_list ?ts v"
    by (rule count_targets)
  have "buildEdges (ss # xs) (adj, deg) = Inr (adj', deg')" using r1 r by simp
  moreover have "\<forall>u. map_of adj' u
        = map_option (\<lambda>l. l @ map snd (filter (\<lambda>e. fst e = u) (edgesOf P (ss # xs)))) (map_of adj u)"
  proof
    fix u
    show "map_of adj' u
        = map_option (\<lambda>l. l @ map snd (filter (\<lambda>e. fst e = u) (edgesOf P (ss # xs)))) (map_of adj u)"
      using a [rule_format, of u] a1 l
      by (cases "u = ss_id ss") (simp_all add: edgesOf_Cons filter_map comp_def)
  qed
  moreover have "\<forall>v. map_of deg' v
        = map_option (\<lambda>n. n + int (length (filter (\<lambda>e. snd e = v) (edgesOf P (ss # xs))))) (map_of deg v)"
  proof
    fix v
    show "map_of deg' v
        = map_option (\<lambda>n. n + int (length (filter (\<lambda>e. snd e = v) (edgesOf P (ss # xs))))) (map_of deg v)"
      using d [rule_format, of v] d1 [rule_format, of v] cnt [of v]
      by (cases "map_of deg v") (simp_all add: edgesOf_Cons)
  qed
  ultimately show ?case by blast
qed

lemma build_closed_form:
  "\<exists>adj deg. buildEdges subSteps (initMaps subSteps) = Inr (adj, deg)
     \<and> (\<forall>u. map_of adj u = (if u \<in> set (map ss_id subSteps)
                             then Some (map snd (filter (\<lambda>e. fst e = u) (presentEdges subSteps)))
                             else None))
     \<and> (\<forall>v. map_of deg v = (if v \<in> set (map ss_id subSteps)
                             then Some (int (length (filter (\<lambda>e. snd e = v) (presentEdges subSteps))))
                             else None))"
proof -
  let ?P = "set (map ss_id subSteps)"
  obtain a d where ad: "initMaps subSteps = (a, d)" by (cases "initMaps subSteps")
  have ma: "\<And>u. map_of a u = (if u \<in> ?P then Some [] else None)"
    and md: "\<And>u. map_of d u = (if u \<in> ?P then Some 0 else None)"
    using map_of_initMaps [of subSteps] ad by simp_all
  have 1: "dom (map_of a) = ?P" using ma by (auto simp: dom_def)
  have 2: "?P \<subseteq> dom (map_of d)" using md by (auto simp: dom_def)
  have 3: "ss_id ` set subSteps \<subseteq> ?P" by simp
  from buildEdges_result [OF 1 2 3] obtain adj deg where
    r: "buildEdges subSteps (a, d) = Inr (adj, deg)"
    and a: "\<forall>u. map_of adj u
                  = map_option (\<lambda>l. l @ map snd (filter (\<lambda>e. fst e = u) (edgesOf ?P subSteps))) (map_of a u)"
    and d: "\<forall>v. map_of deg v
                  = map_option (\<lambda>n. n + int (length (filter (\<lambda>e. snd e = v) (edgesOf ?P subSteps)))) (map_of d v)"
    by blast
  show ?thesis
    using r a d by (simp add: ad ma md presentEdges_def)
qed

lemma relax_append:
  "relax (vs @ ws) dq = (case relax vs dq of Inl e \<Rightarrow> Inl e | Inr dq' \<Rightarrow> relax ws dq')"
proof (induction vs arbitrary: dq)
  case Nil
  then show ?case by simp
next
  case (Cons v vs)
  obtain deg q where dq: "dq = (deg, q)" by (cases dq)
  show ?case by (cases "map_of deg v") (simp_all add: dq Cons.IH)
qed

lemma relax_prefix:
  "relax vs (deg, p @ q) =
     (case relax vs (deg, q) of Inl e \<Rightarrow> Inl e | Inr (d, q') \<Rightarrow> Inr (d, p @ q'))"
proof (induction vs arbitrary: deg q)
  case Nil
  then show ?case by simp
next
  case (Cons v vs)
  show ?case
  proof (cases "map_of deg v")
    case None
    then show ?thesis by simp
  next
    case (Some n)
    show ?thesis
      by (simp add: Some Cons.IH)
  qed
qed

lemma relax_result:
  assumes "set vs \<subseteq> dom (map_of deg)"
  shows "\<exists>deg' pushed. relax vs (deg, q) = Inr (deg', q @ pushed)
           \<and> (\<forall>w. map_of deg' w = map_option (\<lambda>n. n - int (count_list vs w)) (map_of deg w))
           \<and> set pushed = {w \<in> set vs. \<exists>n. map_of deg w = Some n \<and> 0 < n \<and> n \<le> int (count_list vs w)}
           \<and> distinct pushed"
  using assms
proof (induction vs arbitrary: deg q)
  case Nil
  then show ?case by (simp add: option.map_ident)
next
  case (Cons v vs)
  from Cons.prems obtain n where n: "map_of deg v = Some n" by auto
  let ?deg = "AList.update v (n - 1) deg"
  let ?q = "if n - 1 = 0 then q @ [v] else q"
  have m: "map_of ?deg = (map_of deg)(v \<mapsto> n - 1)" by (simp add: update_conv')
  have sub: "set vs \<subseteq> dom (map_of ?deg)" using Cons.prems by (auto simp: m)
  from Cons.IH [OF sub, of ?q] obtain deg' pushed where
    r: "relax vs (?deg, ?q) = Inr (deg', ?q @ pushed)"
    and d: "\<forall>w. map_of deg' w = map_option (\<lambda>n. n - int (count_list vs w)) (map_of ?deg w)"
    and p: "set pushed = {w \<in> set vs. \<exists>k. map_of ?deg w = Some k \<and> 0 < k \<and> k \<le> int (count_list vs w)}"
    and dp: "distinct pushed"
    by blast
  let ?pushed = "(if n - 1 = 0 then [v] else []) @ pushed"
  have 1: "relax (v # vs) (deg, q) = Inr (deg', q @ ?pushed)"
    using r n by simp
  have 2: "\<forall>w. map_of deg' w = map_option (\<lambda>n. n - int (count_list (v # vs) w)) (map_of deg w)"
    using d n by (auto simp: m)
  have vin: "0 < k \<Longrightarrow> k \<le> int (count_list vs v) \<Longrightarrow> v \<in> set vs" for k
    by (metis count_list_0_iff int_ops(1) not_le)
  have 3: "set ?pushed = {w \<in> set (v # vs). \<exists>k. map_of deg w = Some k \<and> 0 < k \<and> k \<le> int (count_list (v # vs) w)}"
  proof (rule set_eqI)
    fix w
    show "w \<in> set ?pushed \<longleftrightarrow>
            w \<in> {w \<in> set (v # vs). \<exists>k. map_of deg w = Some k \<and> 0 < k \<and> k \<le> int (count_list (v # vs) w)}"
    proof (cases "w = v")
      case False
      then show ?thesis using p by (auto simp: m)
    next
      case True
      have "v \<in> set ?pushed \<longleftrightarrow> n = 1 \<or> (v \<in> set vs \<and> 0 < n - 1 \<and> n - 1 \<le> int (count_list vs v))"
        using p by (auto simp: m)
      also have "\<dots> \<longleftrightarrow> 0 < n \<and> n \<le> int (count_list vs v) + 1"
        using vin [of "n - 1"] by auto
      finally show ?thesis using True n by (simp add: algebra_simps)
    qed
  qed
  have 4: "distinct ?pushed"
    using dp p by (auto simp: m)
  from 1 2 3 4 show ?case by blast
qed

lemma relax_order:
  assumes "set vs \<subseteq> dom (map_of deg)"
    and "\<forall>w n. map_of deg w = Some n \<longrightarrow> int (count_list vs w) \<le> n"
  shows "\<exists>deg'. relax vs (deg, q)
           = Inr (deg', q @ filter (\<lambda>w. map_of deg w = Some (int (count_list vs w))) (remdups vs))"
  using assms
proof (induction vs arbitrary: deg q)
  case Nil
  then show ?case by simp
next
  case (Cons v vs)
  from Cons.prems(1) obtain n where n: "map_of deg v = Some n" by auto
  have bound: "int (count_list vs v) + 1 \<le> n"
    using Cons.prems(2) n by fastforce
  let ?deg = "AList.update v (n - 1) deg"
  let ?q = "if n - 1 = 0 then q @ [v] else q"
  have m: "map_of ?deg = (map_of deg)(v \<mapsto> n - 1)" by (simp add: update_conv')
  have sub: "set vs \<subseteq> dom (map_of ?deg)" using Cons.prems(1) by (auto simp: m)
  have le: "\<forall>w k. map_of ?deg w = Some k \<longrightarrow> int (count_list vs w) \<le> k"
  proof (intro allI impI)
    fix w k assume k: "map_of ?deg w = Some k"
    show "int (count_list vs w) \<le> k"
    proof (cases "w = v")
      case True
      then show ?thesis using k bound by (simp add: m)
    next
      case False
      then have "map_of deg w = Some k" using k by (simp add: m)
      with Cons.prems(2) have "int (count_list (v # vs) w) \<le> k" by blast
      with False show ?thesis by simp
    qed
  qed
  from Cons.IH [OF sub le, of ?q] obtain deg' where
    r: "relax vs (?deg, ?q)
          = Inr (deg', ?q @ filter (\<lambda>w. map_of ?deg w = Some (int (count_list vs w))) (remdups vs))"
    by blast
  have same: "filter (\<lambda>w. map_of ?deg w = Some (int (count_list vs w))) (remdups vs)
                = filter (\<lambda>w. map_of deg w = Some (int (count_list (v # vs) w))) (remdups vs)"
    by (rule filter_cong) (auto simp: m n)
  have step: "relax (v # vs) (deg, q)
                = Inr (deg', ?q @ filter (\<lambda>w. map_of deg w = Some (int (count_list (v # vs) w))) (remdups vs))"
    using r n by (simp add: same)
  have "?q @ filter (\<lambda>w. map_of deg w = Some (int (count_list (v # vs) w))) (remdups vs)
          = q @ filter (\<lambda>w. map_of deg w = Some (int (count_list (v # vs) w))) (remdups (v # vs))"
  proof (cases "v \<in> set vs")
    case True
    then have "0 < count_list vs v" using count_list_0_iff [of vs v] by auto
    with bound have "n - 1 \<noteq> 0" by simp
    with True show ?thesis by simp
  next
    case False
    then have "count_list vs v = 0" by (simp add: count_list_0_iff)
    with False n show ?thesis by auto
  qed
  with step show ?case by auto
qed

lemma forLevel_queue:
  assumes "queue st = us @ extra"
  shows "forLevel adj (length us) (st, cl) =
     (case relax (concat (map (targetsOf adj) us)) (inDegree st, extra) of
        Inl e \<Rightarrow> Inl e
      | Inr (deg, q) \<Rightarrow>
          Inr (st\<lparr>queue := q, inDegree := deg, visitedCount := visitedCount st + length us\<rparr>, cl @ us))"
  using assms
proof (induction us arbitrary: st cl extra)
  case Nil
  then show ?case by simp
next
  case (Cons u us)
  have q: "queue st = u # (us @ extra)" using Cons.prems by simp
  show ?case
  proof (cases "relax (targetsOf adj u) (inDegree st, extra)")
    case (Inl e)
    then show ?thesis
      by (simp add: q relax_append relax_prefix [of _ _ us extra])
  next
    case (Inr dq)
    obtain d1 e1 where dq: "dq = (d1, e1)" by (cases dq)
    let ?st = "st\<lparr>queue := us @ e1, inDegree := d1, visitedCount := visitedCount st + 1\<rparr>"
    have step: "forLevel adj (length (u # us)) (st, cl) = forLevel adj (length us) (?st, cl @ [u])"
      using Inr dq by (simp add: q relax_prefix [of _ _ us extra])
    have qs: "queue ?st = us @ e1" by simp
    show ?thesis
      unfolding step Cons.IH [OF qs]
      using Inr dq by (simp add: relax_append split: sum.splits)
  qed
qed

lemma presentEdges_endpoints:
  "e \<in> set (presentEdges subSteps) \<Longrightarrow>
     fst e \<in> set (map ss_id subSteps) \<and> snd e \<in> set (map ss_id subSteps)"
  by (auto simp: presentEdges_def edgesOf_def)

lemma inDegreeIn_split:
  "A \<inter> B = {} \<Longrightarrow> inDegreeIn es (A \<union> B) v = inDegreeIn es A v + inDegreeIn es B v"
  by (induction es) (auto simp: inDegreeIn_def)

lemma inDegreeIn_insert:
  "u \<notin> S \<Longrightarrow> inDegreeIn es (insert u S) v
     = length (filter (\<lambda>e. fst e = u \<and> snd e = v) es) + inDegreeIn es S v"
  by (induction es) (auto simp: inDegreeIn_def)

lemma inDegreeIn_empty: "inDegreeIn es {} v = 0"
  by (simp add: inDegreeIn_def)

lemma inDegreeIn_pos_target:
  "0 < inDegreeIn es S v \<Longrightarrow> \<exists>e \<in> set es. fst e \<in> S \<and> snd e = v"
  by (induction es) (auto simp: inDegreeIn_def split: if_splits)

lemma count_successors:
  "count_list (map snd (filter (\<lambda>e. fst e = u) es)) v
     = length (filter (\<lambda>e. fst e = u \<and> snd e = v) es)"
  by (induction es) auto

lemma count_list_append: "count_list (xs @ ys) v = count_list xs v + count_list ys v"
  by (induction xs) auto

lemma count_level_targets:
  assumes "distinct us"
    and "\<forall>u \<in> set us. targetsOf adj u = map snd (filter (\<lambda>e. fst e = u) es)"
  shows "count_list (concat (map (targetsOf adj) us)) v = inDegreeIn es (set us) v"
  using assms
proof (induction us)
  case Nil
  then show ?case by (simp add: inDegreeIn_empty)
next
  case (Cons u us)
  then show ?case
    by (simp add: count_list_append count_successors inDegreeIn_insert)
qed

lemma remaining_snoc:
  "set (remaining subSteps (lvls @ [q])) = set (remaining subSteps lvls) - set q"
  "remaining subSteps (lvls @ [q]) = filter (\<lambda>v. v \<notin> set q) (remaining subSteps lvls)"
  by (auto simp: remaining_def intro: filter_cong)

lemma frontier_subset: "set (frontier subSteps rem) \<subseteq> set rem"
  by (auto simp: frontier_def)

lemma count_list_pos_iff: "0 < count_list xs x \<longleftrightarrow> x \<in> set xs"
  using count_list_0_iff [of xs x] by auto

lemma peel_step:
  assumes inv: "peelInv subSteps st"
    and adj: "\<forall>u \<in> set (map ss_id subSteps).
                targetsOf adj u = map snd (filter (\<lambda>e. fst e = u) (presentEdges subSteps))"
  shows "\<exists>st1. forLevel adj (length (queue st)) (st, []) = Inr (st1, queue st)
           \<and> levels st1 = levels st
           \<and> queue st1 = discovered subSteps (remaining subSteps (levels st @ [queue st])) (queue st)
           \<and> peelInv subSteps (st1\<lparr>levels := levels st @ [queue st]\<rparr>)"
proof -
  define es where "es = presentEdges subSteps"
  define ids where "ids = map ss_id subSteps"
  define P where "P = concat (levels st)"
  define R where "R = remaining subSteps (levels st)"
  define Q where "Q = queue st"
  define R1 where "R1 = remaining subSteps (levels st @ [Q])"
  define ts where "ts = concat (map (targetsOf adj) Q)"
  from inv have
    I1: "\<And>v. map_of (inDegree st) v = (if v \<in> set ids then Some (int (inDegreeIn es (set R) v)) else None)"
    and I2d: "distinct Q" and I2: "set Q = set (frontier subSteps R)"
    and I3d: "distinct P" and I3: "set P \<subseteq> set ids"
    and I4: "\<And>v. v \<in> set P \<Longrightarrow> inDegreeIn es (set R) v = 0"
    and I5: "visitedCount st = length P"
    unfolding peelInv_def es_def ids_def P_def R_def Q_def by blast+
  have QR: "set Q \<subseteq> set R" using I2 frontier_subset by blast
  have Rids: "set R \<subseteq> set ids" by (auto simp: R_def remaining_def ids_def)
  have RP: "set R \<inter> set P = {}" by (auto simp: R_def remaining_def P_def)
  have Qfront: "\<And>v. v \<in> set Q \<longleftrightarrow> v \<in> set R \<and> inDegreeIn es (set R) v = 0"
    unfolding I2 by (auto simp: frontier_def es_def)
  have adjQ: "\<forall>u \<in> set Q. targetsOf adj u = map snd (filter (\<lambda>e. fst e = u) es)"
    using adj QR Rids by (auto simp: es_def ids_def)
  have cnt: "\<And>v. count_list ts v = inDegreeIn es (set Q) v"
    unfolding ts_def by (rule count_level_targets [OF I2d adjQ])
  have tsids: "set ts \<subseteq> set ids"
  proof
    fix v assume "v \<in> set ts"
    then have "0 < inDegreeIn es (set Q) v" using cnt [of v] count_list_pos_iff [of ts v] by simp
    from inDegreeIn_pos_target [OF this] presentEdges_endpoints [of _ subSteps]
    show "v \<in> set ids" by (auto simp: es_def ids_def)
  qed
  have dom: "set ts \<subseteq> dom (map_of (inDegree st))"
    using tsids I1 by (auto simp: dom_def)
  from relax_result [OF dom, of "[]"] obtain deg' pushed where
    r: "relax ts (inDegree st, []) = Inr (deg', pushed)"
    and d: "\<And>w. map_of deg' w = map_option (\<lambda>n. n - int (count_list ts w)) (map_of (inDegree st) w)"
    and p: "set pushed = {w \<in> set ts. \<exists>n. map_of (inDegree st) w = Some n \<and> 0 < n \<and> n \<le> int (count_list ts w)}"
    and dp: "distinct pushed"
    by auto
  define st1 where
    "st1 = st\<lparr>queue := pushed, inDegree := deg', visitedCount := visitedCount st + length Q\<rparr>"
  have fl: "forLevel adj (length (queue st)) (st, []) = Inr (st1, queue st)"
    using forLevel_queue [of st Q "[]" adj "[]"] r
    by (simp add: Q_def ts_def st1_def)
  have R1set: "set R1 = set R - set Q"
    unfolding R1_def R_def by (rule remaining_snoc)
  have Rsplit: "set R = set R1 \<union> set Q" and disj: "set R1 \<inter> set Q = {}"
    using R1set QR by auto
  have deg_split: "\<And>v. inDegreeIn es (set R) v = inDegreeIn es (set R1) v + inDegreeIn es (set Q) v"
    unfolding Rsplit by (rule inDegreeIn_split [OF disj])
  have J1: "\<And>v. map_of deg' v = (if v \<in> set ids then Some (int (inDegreeIn es (set R1) v)) else None)"
    by (simp add: d I1 cnt deg_split)
  have J2: "set pushed = set (frontier subSteps R1)"
  proof (rule set_eqI)
    fix w
    have "w \<in> set pushed \<longleftrightarrow>
            w \<in> set ts \<and> 0 < inDegreeIn es (set R) w \<and> inDegreeIn es (set R) w \<le> inDegreeIn es (set Q) w"
      using tsids by (auto simp: p I1 cnt)
    also have "\<dots> \<longleftrightarrow> w \<in> set ts \<and> inDegreeIn es (set R1) w = 0"
      using cnt [of w] count_list_pos_iff [of ts w] by (auto simp: deg_split)
    also have "\<dots> \<longleftrightarrow> w \<in> set R1 \<and> inDegreeIn es (set R1) w = 0"
    proof (cases "inDegreeIn es (set R1) w = 0")
      case False
      then show ?thesis by simp
    next
      case True
      have "w \<in> set ts \<longleftrightarrow> w \<in> set R1"
      proof
        assume w: "w \<in> set ts"
        then have pos: "0 < inDegreeIn es (set R) w"
          using cnt [of w] count_list_pos_iff [of ts w] by (simp add: deg_split)
        have "w \<notin> set P" using I4 [of w] pos by auto
        moreover have "w \<notin> set Q" using Qfront [of w] pos by auto
        moreover have "w \<in> set ids" using w tsids by auto
        ultimately show "w \<in> set R1"
          by (auto simp: R1_def remaining_def ids_def P_def)
      next
        assume w: "w \<in> set R1"
        then have "w \<in> set R" "w \<notin> set Q" using R1set by auto
        then have "inDegreeIn es (set R) w \<noteq> 0" using Qfront [of w] by auto
        then have "0 < inDegreeIn es (set Q) w" using True by (simp add: deg_split)
        then show "w \<in> set ts" using cnt [of w] count_list_pos_iff [of ts w] by simp
      qed
      then show ?thesis by simp
    qed
    also have "\<dots> \<longleftrightarrow> w \<in> set (frontier subSteps R1)"
      by (auto simp: frontier_def es_def)
    finally show "w \<in> set pushed \<longleftrightarrow> w \<in> set (frontier subSteps R1)" .
  qed
  have le: "\<forall>w n. map_of (inDegree st) w = Some n \<longrightarrow> int (count_list ts w) \<le> n"
    by (auto simp: I1 cnt deg_split split: if_splits)
  from relax_order [OF dom le, of "[]"] r
  have pushed: "pushed = filter (\<lambda>w. map_of (inDegree st) w = Some (int (count_list ts w))) (remdups ts)"
    by auto
  have "filter (\<lambda>w. map_of (inDegree st) w = Some (int (count_list ts w))) (remdups ts)
          = filter (\<lambda>w. inDegreeIn es (set R1) w = 0) (remdups ts)"
    by (rule filter_cong) (use tsids in \<open>auto simp: I1 cnt deg_split\<close>)
  moreover have "ts = concat (map (\<lambda>u. map snd (filter (\<lambda>e. fst e = u) es)) Q)"
    unfolding ts_def using adjQ by (auto intro: arg_cong [where f = concat])
  ultimately have J6: "pushed = discovered subSteps R1 Q"
    using pushed by (simp add: discovered_def es_def)
  have J3d: "distinct (P @ Q)" using I3d I2d QR RP by auto
  have J3: "set (P @ Q) \<subseteq> set ids" using I3 QR Rids by auto
  have J4: "\<And>v. v \<in> set (P @ Q) \<Longrightarrow> inDegreeIn es (set R1) v = 0"
  proof -
    fix v assume "v \<in> set (P @ Q)"
    then have "inDegreeIn es (set R) v = 0" using I4 [of v] Qfront [of v] by auto
    then show "inDegreeIn es (set R1) v = 0" by (simp add: deg_split)
  qed
  have J5: "visitedCount st + length Q = length (P @ Q)" using I5 by simp
  have "peelInv subSteps (st1\<lparr>levels := levels st @ [queue st]\<rparr>)"
    unfolding peelInv_def
    using J1 dp J2 J3d J3 J4 J5
    by (simp add: st1_def es_def ids_def P_def R1_def Q_def)
  moreover have "levels st1 = levels st" by (simp add: st1_def)
  moreover have "queue st1 = discovered subSteps (remaining subSteps (levels st @ [queue st])) (queue st)"
    using J6 by (simp add: st1_def R1_def Q_def)
  ultimately show ?thesis using fl by blast
qed

lemma whileQueue_peels:
  "\<lbrakk>\<forall>u \<in> set (map ss_id subSteps).
       targetsOf adj u = map snd (filter (\<lambda>e. fst e = u) (presentEdges subSteps));
    peelInv subSteps st\<rbrakk>
   \<Longrightarrow> \<exists>st' more. whileQueue adj st = Inr st'
         \<and> peelInv subSteps st' \<and> queue st' = []
         \<and> levels st' = levels st @ more
         \<and> map set more = map set (peelLayers subSteps (remaining subSteps (levels st)))
         \<and> (more \<noteq> [] \<longrightarrow> hd more = queue st)
         \<and> [] \<notin> set more
         \<and> discoveredChain subSteps (levels st) more"
proof (induction adj st rule: whileQueue.induct)
  case (1 adj st)
  let ?R = "remaining subSteps (levels st)"
  have front: "set (queue st) = set (frontier subSteps ?R)"
    using "1.prems"(2) by (simp add: peelInv_def)
  show ?case
  proof (cases "queue st = []")
    case True
    then have "frontier subSteps ?R = []" using front by simp
    then have "peelLayers subSteps ?R = []"
      by (subst peelLayers.simps) simp
    moreover have "whileQueue adj st = Inr st"
      using True by (subst whileQueue.simps) simp
    ultimately show ?thesis using "1.prems"(2) True by simp
  next
    case False
    then have pos: "0 < length (queue st)" by simp
    from peel_step [OF "1.prems"(2,1)] obtain st1 where
      fl: "forLevel adj (length (queue st)) (st, []) = Inr (st1, queue st)"
      and lv: "levels st1 = levels st"
      and disc: "queue st1 = discovered subSteps (remaining subSteps (levels st @ [queue st])) (queue st)"
      and inv1: "peelInv subSteps (st1\<lparr>levels := levels st @ [queue st]\<rparr>)"
      by blast
    from inv1 have inv1': "peelInv subSteps (st1\<lparr>levels := levels st1 @ [queue st]\<rparr>)"
      by (simp add: lv)
    from "1.IH" [OF pos fl refl "1.prems"(1) inv1'] obtain st' more where
      w: "whileQueue adj (st1\<lparr>levels := levels st1 @ [queue st]\<rparr>) = Inr st'"
      and inv': "peelInv subSteps st'" and q': "queue st' = []"
      and lv': "levels st' = levels (st1\<lparr>levels := levels st1 @ [queue st]\<rparr>) @ more"
      and spec: "map set more = map set (peelLayers subSteps
                   (remaining subSteps (levels (st1\<lparr>levels := levels st1 @ [queue st]\<rparr>))))"
      and ne: "[] \<notin> set more"
      and hd': "more \<noteq> [] \<longrightarrow> hd more = queue (st1\<lparr>levels := levels st1 @ [queue st]\<rparr>)"
      and chain': "discoveredChain subSteps (levels (st1\<lparr>levels := levels st1 @ [queue st]\<rparr>)) more"
      by blast
    have chain: "discoveredChain subSteps (levels st) (queue st # more)"
    proof (cases more)
      case Nil
      then show ?thesis by simp
    next
      case (Cons l ls)
      then have "l = discovered subSteps (remaining subSteps (levels st @ [queue st])) (queue st)"
        using hd' disc by simp
      then show ?thesis using chain' Cons by (simp add: lv)
    qed
    have run: "whileQueue adj st = Inr st'"
      using pos fl w by (subst whileQueue.simps) simp
    have fne: "frontier subSteps ?R \<noteq> []" using front False by auto
    have rem: "filter (\<lambda>v. v \<notin> set (frontier subSteps ?R)) ?R
                 = remaining subSteps (levels st @ [queue st])"
      by (simp add: remaining_snoc(2) front)
    have peel: "peelLayers subSteps ?R
                  = frontier subSteps ?R # peelLayers subSteps (remaining subSteps (levels st @ [queue st]))"
      using fne by (subst peelLayers.simps) (simp add: Let_def rem)
    have "levels st' = levels st @ (queue st # more)"
      using lv' by (simp add: lv)
    moreover have "map set (queue st # more) = map set (peelLayers subSteps ?R)"
      using spec by (simp add: peel front lv)
    moreover have "[] \<notin> set (queue st # more)" using ne False by auto
    ultimately show ?thesis using run inv' q' chain
      by (intro exI [of _ st'] exI [of _ "queue st # more"]) simp
  qed
qed

lemma initial_peelInv:
  assumes "distinct (map ss_id subSteps)"
    and "\<forall>v. map_of deg v = (if v \<in> set (map ss_id subSteps)
                             then Some (int (length (filter (\<lambda>e. snd e = v) (presentEdges subSteps))))
                             else None)"
  shows "peelInv subSteps
           \<lparr>queue = map ss_id (filter (\<lambda>ss. map_of deg (ss_id ss) = Some 0) subSteps),
            levels = [], visitedCount = 0, inDegree = deg\<rparr>"
    and "map ss_id (filter (\<lambda>ss. map_of deg (ss_id ss) = Some 0) subSteps)
           = frontier subSteps (map ss_id subSteps)"
proof -
  let ?es = "presentEdges subSteps"
  let ?ids = "map ss_id subSteps"
  have all: "\<And>v. inDegreeIn ?es (set ?ids) v = length (filter (\<lambda>e. snd e = v) ?es)"
    unfolding inDegreeIn_def
    by (rule arg_cong [where f = length], rule filter_cong) (use presentEdges_endpoints in auto)
  have all': "\<And>v. inDegreeIn ?es (ss_id ` set subSteps) v = length (filter (\<lambda>e. snd e = v) ?es)"
    using all by simp
  have rem: "remaining subSteps [] = ?ids" by (simp add: remaining_def)
  show q: "map ss_id (filter (\<lambda>ss. map_of deg (ss_id ss) = Some 0) subSteps) = frontier subSteps ?ids"
    unfolding frontier_def filter_map comp_def
    by (rule arg_cong [where f = "map ss_id"], rule filter_cong) (simp_all add: assms(2) all')
  have "distinct (frontier subSteps ?ids)"
    using assms(1) by (simp add: frontier_def)
  then show "peelInv subSteps
           \<lparr>queue = map ss_id (filter (\<lambda>ss. map_of deg (ss_id ss) = Some 0) subSteps),
            levels = [], visitedCount = 0, inDegree = deg\<rparr>"
    unfolding q peelInv_def by (simp add: rem assms(2) all')
qed

lemma placeLevel_fields:
  "currentX (placeLevel W l c)
     = (if currentX c > 10 \<and> currentX c + 252 > W then 10 else currentX c) + 252"
  "currentY (placeLevel W l c)
     = (if currentX c > 10 \<and> currentX c + 252 > W then currentY c + rowMaxHeight c + 40 else currentY c)"
  "rowMaxHeight (placeLevel W l c)
     = max (if currentX c > 10 \<and> currentX c + 252 > W then 0 else rowMaxHeight c)
           (real (length l) * 96 - 20)"
  "newPositions (placeLevel W l c)
     = fold (\<lambda>(k, nodeId). AList.update nodeId
               \<lparr>pos_x = (if currentX c > 10 \<and> currentX c + 252 > W then 10 else currentX c),
                pos_y = (if currentX c > 10 \<and> currentX c + 252 > W
                         then currentY c + rowMaxHeight c + 40 else currentY c) + real k * 96\<rparr>)
         (enumerate 0 l) (newPositions c)"
  by (simp_all add: placeLevel_def Let_def)

lemma packColumns_snoc: "packColumns W (ls @ [l]) = placeLevel W l (packColumns W ls)"
  by (simp add: packColumns_def)

lemma packColumns_Nil:
  "packColumns W [] = \<lparr>currentX = 10, currentY = 10, rowMaxHeight = 0, newPositions = []\<rparr>"
  by (simp add: packColumns_def)

lemma currentX_after_column: "ls \<noteq> [] \<Longrightarrow> 10 < currentX (packColumns W ls)"
proof (induction ls rule: rev_induct)
  case Nil
  then show ?case by simp
next
  case (snoc l ls)
  show ?case
  proof (cases "ls = []")
    case True
    have "10 < currentX (placeLevel W l (packColumns W []))"
      by (simp add: placeLevel_fields packColumns_Nil)
    then show ?thesis unfolding True packColumns_snoc .
  next
    case False
    with snoc.IH show ?thesis unfolding packColumns_snoc by (simp add: placeLevel_fields)
  qed
qed

lemma map_of_not_placed:
  "v \<notin> set l \<Longrightarrow>
     map_of (fold (\<lambda>(j, nodeId). AList.update nodeId (f j)) (enumerate n l) np) v = map_of np v"
  by (induction l arbitrary: n np) (simp_all add: update_conv')

lemma map_of_placed:
  "distinct l \<Longrightarrow> k < length l \<Longrightarrow>
     map_of (fold (\<lambda>(j, nodeId). AList.update nodeId (f j)) (enumerate n l) np) (l ! k) = Some (f (n + k))"
proof (induction l arbitrary: n np k)
  case Nil
  then show ?case by simp
next
  case (Cons a l)
  show ?case
  proof (cases k)
    case 0
    then show ?thesis using Cons.prems map_of_not_placed [of a l f] by (simp add: update_conv')
  next
    case (Suc k')
    then show ?thesis using Cons.prems Cons.IH [of k' "Suc n"] by simp
  qed
qed

lemma placeLevel_other:
  "v \<notin> set l \<Longrightarrow> map_of (newPositions (placeLevel W l c)) v = map_of (newPositions c) v"
  unfolding placeLevel_fields by (rule map_of_not_placed)

lemma later_levels_other:
  "v \<notin> set (concat ls) \<Longrightarrow>
     map_of (newPositions (fold (placeLevel W) ls c)) v = map_of (newPositions c) v"
  by (induction ls arbitrary: c) (simp_all add: placeLevel_other)

lemma packColumns_split:
  assumes "i < length lvls"
  shows "packColumns W lvls
           = fold (placeLevel W) (drop (Suc i) lvls) (placeLevel W (lvls ! i) (packColumns W (take i lvls)))"
    and "packColumns W (take (Suc i) lvls) = placeLevel W (lvls ! i) (packColumns W (take i lvls))"
proof -
  have "lvls = take i lvls @ lvls ! i # drop (Suc i) lvls"
    using assms by (rule id_take_nth_drop)
  then have "packColumns W lvls = packColumns W (take i lvls @ lvls ! i # drop (Suc i) lvls)"
    by simp
  then show "packColumns W lvls
           = fold (placeLevel W) (drop (Suc i) lvls) (placeLevel W (lvls ! i) (packColumns W (take i lvls)))"
    by (simp add: packColumns_def)
  show "packColumns W (take (Suc i) lvls) = placeLevel W (lvls ! i) (packColumns W (take i lvls))"
    using assms by (simp add: take_Suc_conv_app_nth packColumns_snoc)
qed

lemma distinct_concat_later:
  assumes "distinct (concat lvls)" and "i < length lvls"
  shows "distinct (lvls ! i)" and "set (lvls ! i) \<inter> set (concat (drop (Suc i) lvls)) = {}"
proof -
  have "lvls = take i lvls @ lvls ! i # drop (Suc i) lvls"
    using assms(2) by (rule id_take_nth_drop)
  then have "distinct (concat (take i lvls @ lvls ! i # drop (Suc i) lvls))"
    using assms(1) by simp
  then show "distinct (lvls ! i)" and "set (lvls ! i) \<inter> set (concat (drop (Suc i) lvls)) = {}"
    by auto
qed

text \<open>
  C7. Let \<open>c\<close> be the cursor after the columns before column \<open>i\<close>. The column wraps
  exactly when it is not the very first and \<open>currentX + 252\<close> exceeds the width; then
  it starts at \<open>x = 10\<close> and at \<open>y\<close> advanced by the row's maximal height plus \<open>40\<close>,
  and the row's maximal height restarts from \<open>0\<close>; the very first column starts at
  \<open>(10, 10)\<close>. After the column the cursor is \<open>252\<close> further right and the row's maximal
  height includes the column height \<open>n * 96 - 20\<close>. When no id occurs twice in the
  layers, node \<open>k\<close> of the column is placed at the column's \<open>x\<close> and at its \<open>y\<close> plus
  \<open>k * 96\<close>, so two nodes of one layer are more than a card height (\<open>76\<close>) apart.
\<close>

theorem column_packing:
  assumes "i < length lvls"
    and "c = packColumns W (take i lvls)"
    and "wrap \<longleftrightarrow> i \<noteq> 0 \<and> currentX c + (192 + 60) > W"
    and "colX = (if wrap then 10 else currentX c)"
    and "colY = (if wrap then currentY c + (rowMaxHeight c + 2 * 20) else currentY c)"
  shows "(i = 0 \<longrightarrow> colX = 10 \<and> colY = 10)
       \<and> currentX (packColumns W (take (Suc i) lvls)) = colX + (192 + 60)
       \<and> currentY (packColumns W (take (Suc i) lvls)) = colY
       \<and> rowMaxHeight (packColumns W (take (Suc i) lvls))
           = max (if wrap then 0 else rowMaxHeight c) (real (length (lvls ! i)) * (76 + 20) - 20)
       \<and> (distinct (concat lvls) \<longrightarrow>
            (\<forall>k < length (lvls ! i).
               map_of (newPositions (packColumns W lvls)) (lvls ! i ! k)
                 = Some \<lparr>pos_x = colX, pos_y = colY + real k * (76 + 20)\<rparr>)
          \<and> (\<forall>j k. j < k \<and> k < length (lvls ! i) \<longrightarrow>
               (\<exists>p q. map_of (newPositions (packColumns W lvls)) (lvls ! i ! j) = Some p
                     \<and> map_of (newPositions (packColumns W lvls)) (lvls ! i ! k) = Some q
                     \<and> pos_x p = pos_x q \<and> pos_y p + 76 < pos_y q)))"
proof -
  have w: "wrap \<longleftrightarrow> currentX c > 10 \<and> currentX c + 252 > W"
  proof (cases "i = 0")
    case True
    then show ?thesis using assms(2,3) by (simp add: packColumns_Nil)
  next
    case False
    then have "take i lvls \<noteq> []" using assms(1) by auto
    from currentX_after_column [OF this] show ?thesis using assms(2,3) False by simp
  qed
  have first: "i = 0 \<longrightarrow> colX = 10 \<and> colY = 10"
    using assms(2,3,4,5) by (simp add: packColumns_Nil)
  note step = packColumns_split [OF assms(1), of W, folded assms(2)]
  have cx: "currentX (packColumns W (take (Suc i) lvls)) = colX + (192 + 60)"
    and cy: "currentY (packColumns W (take (Suc i) lvls)) = colY"
    and rm: "rowMaxHeight (packColumns W (take (Suc i) lvls))
           = max (if wrap then 0 else rowMaxHeight c) (real (length (lvls ! i)) * (76 + 20) - 20)"
    unfolding step(2) placeLevel_fields assms(4,5) w by simp_all
  have placed: "distinct (concat lvls) \<longrightarrow>
            (\<forall>k < length (lvls ! i).
               map_of (newPositions (packColumns W lvls)) (lvls ! i ! k)
                 = Some \<lparr>pos_x = colX, pos_y = colY + real k * (76 + 20)\<rparr>)
          \<and> (\<forall>j k. j < k \<and> k < length (lvls ! i) \<longrightarrow>
               (\<exists>p q. map_of (newPositions (packColumns W lvls)) (lvls ! i ! j) = Some p
                     \<and> map_of (newPositions (packColumns W lvls)) (lvls ! i ! k) = Some q
                     \<and> pos_x p = pos_x q \<and> pos_y p + 76 < pos_y q))"
  proof
    assume dist: "distinct (concat lvls)"
    note d = distinct_concat_later [OF dist assms(1)]
    have pos: "\<forall>k < length (lvls ! i).
            map_of (newPositions (packColumns W lvls)) (lvls ! i ! k)
              = Some \<lparr>pos_x = colX, pos_y = colY + real k * (76 + 20)\<rparr>"
    proof (intro allI impI)
      fix k assume k: "k < length (lvls ! i)"
      have "lvls ! i ! k \<in> set (lvls ! i)" using k by simp
      with d(2) have "lvls ! i ! k \<notin> set (concat (drop (Suc i) lvls))" by blast
      then have "map_of (newPositions (packColumns W lvls)) (lvls ! i ! k)
          = map_of (newPositions (placeLevel W (lvls ! i) c)) (lvls ! i ! k)"
        unfolding step(1) by (rule later_levels_other)
      also have "\<dots> = Some \<lparr>pos_x = colX, pos_y = colY + real k * (76 + 20)\<rparr>"
        unfolding placeLevel_fields
        using map_of_placed [OF d(1) k, of
            "\<lambda>j. \<lparr>pos_x = (if currentX c > 10 \<and> currentX c + 252 > W then 10 else currentX c),
                  pos_y = (if currentX c > 10 \<and> currentX c + 252 > W
                           then currentY c + rowMaxHeight c + 40 else currentY c) + real j * 96\<rparr>"
            0 "newPositions c"]
        by (simp add: assms(4,5) w)
      finally show "map_of (newPositions (packColumns W lvls)) (lvls ! i ! k)
                = Some \<lparr>pos_x = colX, pos_y = colY + real k * (76 + 20)\<rparr>" .
    qed
    have apart: "\<forall>j k. j < k \<and> k < length (lvls ! i) \<longrightarrow>
              (\<exists>p q. map_of (newPositions (packColumns W lvls)) (lvls ! i ! j) = Some p
                    \<and> map_of (newPositions (packColumns W lvls)) (lvls ! i ! k) = Some q
                    \<and> pos_x p = pos_x q \<and> pos_y p + 76 < pos_y q)"
    proof (intro allI impI)
      fix j k assume jk: "j < k \<and> k < length (lvls ! i)"
      then have "real j + 1 \<le> real k" by simp
      then have "real j * 96 + 76 < real k * 96" by simp
      with pos jk show "\<exists>p q. map_of (newPositions (packColumns W lvls)) (lvls ! i ! j) = Some p
                    \<and> map_of (newPositions (packColumns W lvls)) (lvls ! i ! k) = Some q
                    \<and> pos_x p = pos_x q \<and> pos_y p + 76 < pos_y q"
        by simp
    qed
    from pos apart show "(\<forall>k < length (lvls ! i).
               map_of (newPositions (packColumns W lvls)) (lvls ! i ! k)
                 = Some \<lparr>pos_x = colX, pos_y = colY + real k * (76 + 20)\<rparr>)
          \<and> (\<forall>j k. j < k \<and> k < length (lvls ! i) \<longrightarrow>
               (\<exists>p q. map_of (newPositions (packColumns W lvls)) (lvls ! i ! j) = Some p
                     \<and> map_of (newPositions (packColumns W lvls)) (lvls ! i ! k) = Some q
                     \<and> pos_x p = pos_x q \<and> pos_y p + 76 < pos_y q))"
      by blast
  qed
  from first cx cy rm placed show ?thesis by blast
qed

theorem column_packing_witness:
  "(1::nat) < length [[''1'', ''5''], [''2'', ''4''], [''3'']]
   \<and> distinct (concat [[''1'', ''5''], [''2'', ''4''], [''3'']])
   \<and> currentX (packColumns 300 (take 1 [[''1'', ''5''], [''2'', ''4''], [''3'']])) + (192 + 60) > 300
   \<and> currentY (packColumns 300 (take (Suc 1) [[''1'', ''5''], [''2'', ''4''], [''3'']])) = 222
   \<and> map_of (newPositions (packColumns 300 [[''1'', ''5''], [''2'', ''4''], [''3'']])) ''4''
       = Some \<lparr>pos_x = 10, pos_y = 318\<rparr>"
proof -
  let ?lvls = "[[''1'', ''5''], [''2'', ''4''], [''3'']]"
  let ?c = "packColumns 300 (take 1 ?lvls)"
  have c: "packColumns 300 [[''1'', ''5'']] = \<lparr>currentX = 262, currentY = 10, rowMaxHeight = 172,
                 newPositions = [(''1'', \<lparr>pos_x = 10, pos_y = 10\<rparr>), (''5'', \<lparr>pos_x = 10, pos_y = 106\<rparr>)]\<rparr>"
    by (simp add: packColumns_def placeLevel_def Let_def)
  have h1: "(1::nat) < length ?lvls" by simp
  have h2: "distinct (concat ?lvls)" by simp
  have h4: "True \<longleftrightarrow> (1::nat) \<noteq> 0 \<and> currentX ?c + (192 + 60) > 300" by (simp add: c)
  have h5: "(10::real) = (if True then 10 else currentX ?c)" by simp
  have h6: "(222::real) = (if True then currentY ?c + (rowMaxHeight ?c + 2 * 20) else currentY ?c)"
    by (simp add: c)
  from column_packing [OF h1 refl h4 h5 h6] h2
  have y: "currentY (packColumns 300 (take (Suc 1) ?lvls)) = 222"
    and p: "\<forall>k < length (?lvls ! 1).
              map_of (newPositions (packColumns 300 ?lvls)) (?lvls ! 1 ! k)
                = Some \<lparr>pos_x = 10, pos_y = 222 + real k * (76 + 20)\<rparr>"
    by blast+
  from p [rule_format, of 1]
  have "map_of (newPositions (packColumns 300 ?lvls)) ''4'' = Some \<lparr>pos_x = 10, pos_y = 318\<rparr>"
    by simp
  moreover have "currentX ?c + (192 + 60) > 300" by (simp add: c)
  ultimately show ?thesis using h1 h2 y by blast
qed

lemmas layout_defs =
  computeLevels_def kahnPeel_def initMaps_def targetsOf_def nextIdsOrEmpty_def
  whileQueue.simps Let_def packColumns_def placeLevel_def requiredSize_def

lemma whileQueue_total:
  "\<forall>u. set (targetsOf adj u) \<subseteq> dom (map_of (inDegree st)) \<Longrightarrow> \<exists>st'. whileQueue adj st = Inr st'"
proof (induction adj st rule: whileQueue.induct)
  case (1 adj st)
  show ?case
  proof (cases "queue st = []")
    case True
    then show ?thesis by (subst whileQueue.simps) simp
  next
    case False
    then have pos: "0 < length (queue st)" by simp
    let ?ts = "concat (map (targetsOf adj) (queue st))"
    have "set ?ts \<subseteq> dom (map_of (inDegree st))" using "1.prems" by auto
    from relax_result [OF this, of "[]"] obtain deg' pushed where
      r: "relax ?ts (inDegree st, []) = Inr (deg', pushed)"
      and d: "\<forall>w. map_of deg' w = map_option (\<lambda>n. n - int (count_list ?ts w)) (map_of (inDegree st) w)"
      by auto
    let ?st1 = "st\<lparr>queue := pushed, inDegree := deg',
                    visitedCount := visitedCount st + length (queue st)\<rparr>"
    have fl: "forLevel adj (length (queue st)) (st, []) = Inr (?st1, queue st)"
      using forLevel_queue [of st "queue st" "[]" adj "[]"] r by simp
    have "dom (map_of deg') = dom (map_of (inDegree st))"
      using d by (auto simp: dom_def)
    then have "\<forall>u. set (targetsOf adj u)
                 \<subseteq> dom (map_of (inDegree (?st1\<lparr>levels := levels ?st1 @ [queue st]\<rparr>)))"
      using "1.prems" by simp
    from "1.IH" [OF pos fl refl this] obtain st' where
      "whileQueue adj (?st1\<lparr>levels := levels ?st1 @ [queue st]\<rparr>) = Inr st'" by blast
    then show ?thesis using pos fl by (subst whileQueue.simps) simp
  qed
qed

lemma built_targets:
  assumes "\<forall>u. map_of adj u = (if u \<in> set (map ss_id subSteps)
                             then Some (map snd (filter (\<lambda>e. fst e = u) (presentEdges subSteps)))
                             else None)"
  shows "\<forall>u \<in> set (map ss_id subSteps).
           targetsOf adj u = map snd (filter (\<lambda>e. fst e = u) (presentEdges subSteps))"
    and "\<forall>u. set (targetsOf adj u) \<subseteq> set (map ss_id subSteps)"
proof -
  show "\<forall>u \<in> set (map ss_id subSteps).
           targetsOf adj u = map snd (filter (\<lambda>e. fst e = u) (presentEdges subSteps))"
    using assms by (simp add: targetsOf_def)
  show "\<forall>u. set (targetsOf adj u) \<subseteq> set (map ss_id subSteps)"
  proof (intro allI subsetI)
    fix u v assume v: "v \<in> set (targetsOf adj u)"
    then have "u \<in> set (map ss_id subSteps)"
      using assms by (auto simp: targetsOf_def split: if_splits)
    with v assms have "v \<in> snd ` set (presentEdges subSteps)"
      by (auto simp: targetsOf_def)
    then show "v \<in> set (map ss_id subSteps)"
      using presentEdges_endpoints [of _ subSteps] by auto
  qed
qed

lemma kahnPeel_total: "\<exists>st. kahnPeel subSteps = Inr st"
proof -
  from build_closed_form [of subSteps] obtain adj deg where
    b: "buildEdges subSteps (initMaps subSteps) = Inr (adj, deg)"
    and a: "\<forall>u. map_of adj u = (if u \<in> set (map ss_id subSteps)
                             then Some (map snd (filter (\<lambda>e. fst e = u) (presentEdges subSteps)))
                             else None)"
    and d: "\<forall>v. map_of deg v = (if v \<in> set (map ss_id subSteps)
                             then Some (int (length (filter (\<lambda>e. snd e = v) (presentEdges subSteps))))
                             else None)"
    by blast
  have "dom (map_of deg) = set (map ss_id subSteps)"
    using d by (auto simp: dom_def)
  with built_targets(2) [OF a]
  have "\<forall>u. set (targetsOf adj u) \<subseteq> dom (map_of (inDegree
           \<lparr>queue = map ss_id (filter (\<lambda>ss. map_of deg (ss_id ss) = Some 0) subSteps),
            levels = [], visitedCount = 0, inDegree = deg\<rparr>))"
    by simp
  from whileQueue_total [OF this] show ?thesis by (simp add: kahnPeel_def b)
qed

lemma computeLevels_total: "\<exists>lvls. computeLevels subSteps = Inr lvls"
  using kahnPeel_total [of subSteps] by (auto simp: computeLevels_def)

lemma handleAutoLayoutSubSteps_total: "\<exists>r. handleAutoLayoutSubSteps canvas s = Inr r"
proof (cases "extendedDetails (editableTask s)")
  case None
  then show ?thesis by (simp add: handleAutoLayoutSubSteps_def)
next
  case (Some d)
  show ?thesis
  proof (cases "ed_subSteps d")
    case None
    with Some show ?thesis by (simp add: handleAutoLayoutSubSteps_def)
  next
    case (Some subSteps)
    note ss = this
    obtain lvls where l: "computeLevels subSteps = Inr lvls"
      using computeLevels_total by blast
    have u: "\<And>f. \<exists>s'. updateExtended f s = Inr s'"
      using \<open>extendedDetails (editableTask s) = Some d\<close> by (simp add: updateExtended_Inr)
    show ?thesis
    proof (cases canvas)
      case None
      then show ?thesis
        using ss \<open>extendedDetails (editableTask s) = Some d\<close>
        by (simp add: handleAutoLayoutSubSteps_def)
    next
      case (Some cv)
      obtain w h where wh: "requiredSize (newPositions (packColumns (canvas_clientWidth cv) lvls)) = (w, h)"
        by (cases "requiredSize (newPositions (packColumns (canvas_clientWidth cv) lvls))")
      from u [of "\<lambda>d. d\<lparr>ed_subSteps :=
                Some (map (\<lambda>ss. ss\<lparr>ss_position :=
                   (case map_of (newPositions (packColumns (canvas_clientWidth cv) lvls)) (ss_id ss) of
                      Some p \<Rightarrow> Some p
                    | None \<Rightarrow> ss_position ss)\<rparr>)
                  (subStepsOrEmpty d))\<rparr>"]
      obtain s' where "updateExtended (\<lambda>d. d\<lparr>ed_subSteps :=
                Some (map (\<lambda>ss. ss\<lparr>ss_position :=
                   (case map_of (newPositions (packColumns (canvas_clientWidth cv) lvls)) (ss_id ss) of
                      Some p \<Rightarrow> Some p
                    | None \<Rightarrow> ss_position ss)\<rparr>)
                  (subStepsOrEmpty d))\<rparr>) s = Inr s'" by blast
      then show ?thesis
        using ss Some l wh \<open>extendedDetails (editableTask s) = Some d\<close>
        by (simp add: handleAutoLayoutSubSteps_def Let_def)
    qed
  qed
qed

lemma kahnPeel_layers:
  assumes "distinct (map ss_id subSteps)"
  shows "\<exists>st. kahnPeel subSteps = Inr st \<and> peelInv subSteps st \<and> queue st = []
           \<and> map set (levels st) = map set (peelLayers subSteps (map ss_id subSteps))
           \<and> (levels st \<noteq> [] \<longrightarrow> hd (levels st) = frontier subSteps (map ss_id subSteps))
           \<and> [] \<notin> set (levels st)
           \<and> discoveredChain subSteps [] (levels st)"
proof -
  from build_closed_form [of subSteps] obtain adj deg where
    b: "buildEdges subSteps (initMaps subSteps) = Inr (adj, deg)"
    and a: "\<forall>u. map_of adj u = (if u \<in> set (map ss_id subSteps)
                             then Some (map snd (filter (\<lambda>e. fst e = u) (presentEdges subSteps)))
                             else None)"
    and d: "\<forall>v. map_of deg v = (if v \<in> set (map ss_id subSteps)
                             then Some (int (length (filter (\<lambda>e. snd e = v) (presentEdges subSteps))))
                             else None)"
    by blast
  let ?st0 = "\<lparr>queue = map ss_id (filter (\<lambda>ss. map_of deg (ss_id ss) = Some 0) subSteps),
               levels = [], visitedCount = 0, inDegree = deg\<rparr>"
  note init = initial_peelInv [OF assms d]
  from whileQueue_peels [OF built_targets(1) [OF a] init(1)] obtain st more where
    w: "whileQueue adj ?st0 = Inr st" and inv: "peelInv subSteps st" and q: "queue st = []"
    and lv: "levels st = levels ?st0 @ more"
    and spec: "map set more = map set (peelLayers subSteps (remaining subSteps (levels ?st0)))"
    and h: "more \<noteq> [] \<longrightarrow> hd more = queue ?st0"
    and ne: "[] \<notin> set more"
    and chain: "discoveredChain subSteps (levels ?st0) more"
    by blast
  have "kahnPeel subSteps = Inr st" by (simp add: kahnPeel_def b w)
  moreover have "levels st = more" using lv by simp
  moreover have "remaining subSteps (levels ?st0) = map ss_id subSteps"
    by (simp add: remaining_def)
  ultimately show ?thesis using inv q spec h ne chain init(2) by auto
qed

lemma discoveredChain_nth:
  "discoveredChain subSteps before ls \<Longrightarrow> Suc k < length ls \<Longrightarrow>
     ls ! Suc k = discovered subSteps (remaining subSteps (before @ take (Suc k) ls)) (ls ! k)"
proof (induction subSteps before ls arbitrary: k rule: discoveredChain.induct)
  case (1 subSteps before)
  then show ?case by simp
next
  case (2 subSteps before l)
  then show ?case by simp
next
  case (3 subSteps before l l' ls)
  show ?case
  proof (cases k)
    case 0
    then show ?thesis using "3.prems"(1) by simp
  next
    case (Suc k')
    then have len: "Suc k' < length (l' # ls)" using "3.prems"(2) by simp
    have c: "discoveredChain subSteps (before @ [l]) (l' # ls)"
      using "3.prems"(1) discoveredChain.simps(3) by blast
    have "(l' # ls) ! Suc k'
            = discovered subSteps (remaining subSteps ((before @ [l]) @ take (Suc k') (l' # ls)))
                ((l' # ls) ! k')"
      by (rule "3.IH" [OF c len])
    then show ?thesis unfolding Suc by simp
  qed
qed

lemma computeLevels_trailing:
  assumes "kahnPeel subSteps = Inr st" and "peelInv subSteps st"
    and "distinct (map ss_id subSteps)"
  shows "(visitedCount st < length subSteps \<longleftrightarrow> remaining subSteps (levels st) \<noteq> [])"
    and "computeLevels subSteps
           = Inr (if remaining subSteps (levels st) = [] then levels st
                  else levels st @ [remaining subSteps (levels st)])"
proof -
  let ?P = "concat (levels st)"
  let ?ids = "map ss_id subSteps"
  from assms(2) have d: "distinct ?P" and sub: "set ?P \<subseteq> set ?ids"
    and vc: "visitedCount st = length ?P"
    by (simp_all add: peelInv_def)
  have len: "length subSteps = card (set ?ids)"
    using distinct_card [OF assms(3)] by simp
  have lenP: "length ?P = card (set ?P)"
    using distinct_card [OF d] by simp
  have rem: "remaining subSteps (levels st) = [] \<longleftrightarrow> set ?ids \<subseteq> set ?P"
    by (auto simp: remaining_def filter_empty_conv)
  show stall: "visitedCount st < length subSteps \<longleftrightarrow> remaining subSteps (levels st) \<noteq> []"
  proof
    assume "visitedCount st < length subSteps"
    then have "card (set ?P) < card (set ?ids)" using vc len lenP by simp
    then have "\<not> set ?ids \<subseteq> set ?P"
      by (metis card_mono List.finite_set not_le)
    then show "remaining subSteps (levels st) \<noteq> []" using rem by simp
  next
    assume "remaining subSteps (levels st) \<noteq> []"
    then have "set ?P \<subset> set ?ids" using rem sub by auto
    then have "card (set ?P) < card (set ?ids)"
      by (intro psubset_card_mono) simp_all
    then show "visitedCount st < length subSteps" using vc len lenP by simp
  qed
  have code: "map ss_id (filter (\<lambda>ss. ss_id ss \<notin> set (concat (levels st))) subSteps)
                = remaining subSteps (levels st)"
    by (simp add: remaining_def filter_map comp_def)
  show "computeLevels subSteps
           = Inr (if remaining subSteps (levels st) = [] then levels st
                  else levels st @ [remaining subSteps (levels st)])"
    unfolding computeLevels_def assms(1) sum.case Let_def code stall by simp
qed

text \<open>
  C1, as amended. For sub-steps with distinct ids the peeling loop ends without error
  and its levels are, as sets, the layers of the specification: the zero in-degree
  frontier, then the frontier after each peeling. The first level is that frontier in
  the original node order; every later level lists its nodes in the order of their
  last incoming edge from the level before (\<open>discovered\<close>); no node is in two levels;
  the computed layers are these levels, followed by at most a trailing layer. For the
  five-node graph the layers are \<open>[1, 5]\<close>, \<open>[2, 4]\<close>, \<open>[3]\<close>, and on a canvas 800 wide
  they become the columns at \<open>x = 10\<close>, \<open>262\<close> and \<open>514\<close>.
\<close>

theorem kahn_layers:
  "(distinct (map ss_id subSteps) \<longrightarrow>
      (\<exists>st. kahnPeel subSteps = Inr st
          \<and> map set (levels st) = map set (peelLayers subSteps (map ss_id subSteps))
          \<and> (levels st \<noteq> [] \<longrightarrow> hd (levels st) = frontier subSteps (map ss_id subSteps))
          \<and> (\<forall>k. Suc k < length (levels st) \<longrightarrow>
                levels st ! Suc k
                  = discovered subSteps (remaining subSteps (take (Suc k) (levels st))) (levels st ! k))
          \<and> distinct (concat (levels st))
          \<and> (\<exists>trailing. computeLevels subSteps = Inr (levels st @ trailing))))
   \<and> computeLevels fiveNodes = Inr [[''1'', ''5''], [''2'', ''4''], [''3'']]
   \<and> (\<exists>s' size. handleAutoLayoutSubSteps (Some exampleCanvas) (editorOf fiveNodes) = Inr (s', size)
        \<and> map (\<lambda>ss. (ss_id ss, ss_position ss)) (currentSubSteps s')
            = [(''1'', Some \<lparr>pos_x = 10, pos_y = 10\<rparr>), (''2'', Some \<lparr>pos_x = 262, pos_y = 10\<rparr>),
               (''3'', Some \<lparr>pos_x = 514, pos_y = 10\<rparr>), (''4'', Some \<lparr>pos_x = 262, pos_y = 106\<rparr>),
               (''5'', Some \<lparr>pos_x = 10, pos_y = 106\<rparr>)])"
proof (intro conjI impI)
  assume dist: "distinct (map ss_id subSteps)"
  from kahnPeel_layers [OF dist] obtain st where
    k: "kahnPeel subSteps = Inr st" and inv: "peelInv subSteps st"
    and spec: "map set (levels st) = map set (peelLayers subSteps (map ss_id subSteps))"
    and h: "levels st \<noteq> [] \<longrightarrow> hd (levels st) = frontier subSteps (map ss_id subSteps)"
    and chain: "discoveredChain subSteps [] (levels st)"
    by blast
  have d: "distinct (concat (levels st))" using inv by (simp add: peelInv_def)
  have order: "\<forall>k. Suc k < length (levels st) \<longrightarrow>
                levels st ! Suc k
                  = discovered subSteps (remaining subSteps (take (Suc k) (levels st))) (levels st ! k)"
    using discoveredChain_nth [OF chain] by simp
  have "\<exists>trailing. computeLevels subSteps = Inr (levels st @ trailing)"
    unfolding computeLevels_trailing(2) [OF k inv dist]
    by (cases "remaining subSteps (levels st) = []") simp_all
  with k spec h d order show "\<exists>st. kahnPeel subSteps = Inr st
          \<and> map set (levels st) = map set (peelLayers subSteps (map ss_id subSteps))
          \<and> (levels st \<noteq> [] \<longrightarrow> hd (levels st) = frontier subSteps (map ss_id subSteps))
          \<and> (\<forall>k. Suc k < length (levels st) \<longrightarrow>
                levels st ! Suc k
                  = discovered subSteps (remaining subSteps (take (Suc k) (levels st))) (levels st ! k))
          \<and> distinct (concat (levels st))
          \<and> (\<exists>trailing. computeLevels subSteps = Inr (levels st @ trailing))"
    by blast
next
  show five: "computeLevels fiveNodes = Inr [[''1'', ''5''], [''2'', ''4''], [''3'']]"
    by (simp add: layout_defs fiveNodes_def node_def)
  show "\<exists>s' size. handleAutoLayoutSubSteps (Some exampleCanvas) (editorOf fiveNodes) = Inr (s', size)
        \<and> map (\<lambda>ss. (ss_id ss, ss_position ss)) (currentSubSteps s')
            = [(''1'', Some \<lparr>pos_x = 10, pos_y = 10\<rparr>), (''2'', Some \<lparr>pos_x = 262, pos_y = 10\<rparr>),
               (''3'', Some \<lparr>pos_x = 514, pos_y = 10\<rparr>), (''4'', Some \<lparr>pos_x = 262, pos_y = 106\<rparr>),
               (''5'', Some \<lparr>pos_x = 10, pos_y = 106\<rparr>)]"
    by (simp add: handleAutoLayoutSubSteps_def five layout_defs store_defs example_defs
          exampleCanvas_def fiveNodes_def)
qed

theorem kahn_layers_witness:
  "distinct (map ss_id fiveNodes)
   \<and> (\<exists>st. kahnPeel fiveNodes = Inr st
          \<and> map set (levels st) = map set (peelLayers fiveNodes (map ss_id fiveNodes))
          \<and> (levels st \<noteq> [] \<longrightarrow> hd (levels st) = frontier fiveNodes (map ss_id fiveNodes))
          \<and> (\<forall>k. Suc k < length (levels st) \<longrightarrow>
                levels st ! Suc k
                  = discovered fiveNodes (remaining fiveNodes (take (Suc k) (levels st))) (levels st ! k))
          \<and> distinct (concat (levels st))
          \<and> (\<exists>trailing. computeLevels fiveNodes = Inr (levels st @ trailing)))"
proof -
  have d: "distinct (map ss_id fiveNodes)" by (simp add: fiveNodes_def node_def)
  from kahn_layers [of fiveNodes] d show ?thesis by blast
qed

text \<open>
  C1 as stated fails on the order inside a later layer: node \<open>1\<close> lists its successors
  as \<open>3\<close>, \<open>2\<close>, and the second layer is \<open>[3, 2]\<close>, while the original order of these
  nodes is \<open>[2, 3]\<close>.
\<close>

theorem layer_order_counterexample:
  "computeLevels reversedPair = Inr [[''1''], [''3'', ''2'']]
   \<and> filter (\<lambda>v. v \<in> set [''3'', ''2'']) (map ss_id reversedPair) = [''2'', ''3'']"
  by (simp add: layout_defs reversedPair_def node_def)

text \<open>
  C6. Computing the layers and the whole layout command never end in an error, for
  any sub-steps, canvas and editor state. For sub-steps with distinct ids the loop
  stalls (\<open>visitedCount\<close> below the number of sub-steps) exactly when some node is in
  no level; every such node then still has an incoming edge from such a node, and the
  result is the levels followed by these nodes, in their original order, as one last
  layer. For the cycle \<open>1 \<rightarrow> 2 \<rightarrow> 1\<close> the only layer is \<open>[1, 2]\<close>.
\<close>

theorem cycle_fallback:
  "(\<exists>lvls. computeLevels subSteps = Inr lvls)
   \<and> (\<exists>r. handleAutoLayoutSubSteps canvas s = Inr r)
   \<and> (distinct (map ss_id subSteps) \<longrightarrow>
        (\<exists>st. kahnPeel subSteps = Inr st
            \<and> (visitedCount st < length subSteps \<longleftrightarrow> remaining subSteps (levels st) \<noteq> [])
            \<and> (\<forall>v \<in> set (remaining subSteps (levels st)).
                  0 < inDegreeIn (presentEdges subSteps) (set (remaining subSteps (levels st))) v)
            \<and> computeLevels subSteps
                = Inr (if remaining subSteps (levels st) = [] then levels st
                       else levels st @ [remaining subSteps (levels st)])))
   \<and> computeLevels twoCycle = Inr [[''1'', ''2'']]"
proof (intro conjI impI)
  show "\<exists>lvls. computeLevels subSteps = Inr lvls" by (rule computeLevels_total)
  show "\<exists>r. handleAutoLayoutSubSteps canvas s = Inr r" by (rule handleAutoLayoutSubSteps_total)
  show "computeLevels twoCycle = Inr [[''1'', ''2'']]"
    by (simp add: layout_defs twoCycle_def node_def)
next
  assume dist: "distinct (map ss_id subSteps)"
  from kahnPeel_layers [OF dist] obtain st where
    k: "kahnPeel subSteps = Inr st" and inv: "peelInv subSteps st" and q: "queue st = []"
    by blast
  let ?R = "remaining subSteps (levels st)"
  have "set (frontier subSteps ?R) = {}" using inv q by (simp add: peelInv_def)
  then have stuck: "\<forall>v \<in> set ?R. 0 < inDegreeIn (presentEdges subSteps) (set ?R) v"
    by (auto simp: frontier_def filter_empty_conv)
  from computeLevels_trailing [OF k inv dist] k stuck
  show "\<exists>st. kahnPeel subSteps = Inr st
            \<and> (visitedCount st < length subSteps \<longleftrightarrow> remaining subSteps (levels st) \<noteq> [])
            \<and> (\<forall>v \<in> set (remaining subSteps (levels st)).
                  0 < inDegreeIn (presentEdges subSteps) (set (remaining subSteps (levels st))) v)
            \<and> computeLevels subSteps
                = Inr (if remaining subSteps (levels st) = [] then levels st
                       else levels st @ [remaining subSteps (levels st)])"
    by blast
qed

theorem cycle_fallback_witness:
  "distinct (map ss_id twoCycle)
   \<and> (\<exists>st. kahnPeel twoCycle = Inr st
          \<and> (visitedCount st < length twoCycle \<longleftrightarrow> remaining twoCycle (levels st) \<noteq> [])
          \<and> computeLevels twoCycle
               = Inr (if remaining twoCycle (levels st) = [] then levels st
                      else levels st @ [remaining twoCycle (levels st)]))
   \<and> computeLevels twoCycle = Inr [[''1'', ''2'']]"
proof -
  have d: "distinct (map ss_id twoCycle)" by (simp add: twoCycle_def node_def)
  from cycle_fallback [of twoCycle None exampleEditor] d show ?thesis by blast
qed

end
